theory Spec2Isabelle
  imports Complex_Main "HOL-Library.Word" "HOL-Library.AList"
begin

section \<open>Data model of the build pipeline\<close>

text \<open>
  The build pipeline of \<^verbatim>\<open>src/build/ChimeraBuild.cpp\<close>. Counts, bin numbers and bin
  positions are \<^verbatim>\<open>uint64_t\<close> / \<^verbatim>\<open>size_t\<close> in the source and 64-bit words here, so that
  every addition and multiplication wraps as the source's does.

  A \<^verbatim>\<open>robin_hood::unordered_map\<close> is an association list with distinct keys, listed in
  the map's iteration order. That order depends on the hash function and is not fixed
  by the source; the properties below are stated for whatever list is given.
\<close>

type_synonym u64 = "64 word"

type_synonym taxid = string

type_synonym hashCount = "(taxid \<times> u64) list"

type_synonym inputFiles = "(taxid \<times> string list) list"

text \<open>
  Modelled from the spec: the declarations of \<^verbatim>\<open>ICFConfig\<close> and \<^verbatim>\<open>FileInfo\<close> are in
  \<^verbatim>\<open>ChimeraBuild.hpp\<close>, which is not among the sources. The spec lists their fields:
  \<^verbatim>\<open>bins (count)\<close> and \<^verbatim>\<open>bin_size (capacity)\<close> are unsigned integers here, as
  \<^verbatim>\<open>calculateFilterSize\<close> assigns its \<^verbatim>\<open>uint64_t\<close> results to them and they are passed on as
  the dimensions of the filter; the counters of \<^verbatim>\<open>FileInfo\<close> are natural numbers.
\<close>

record ICFConfig =
  kmer_size :: "8 word"
  window_size :: "16 word"
  bins :: u64
  bin_size :: u64

record FileInfo =
  fileNum :: nat
  invalidNum :: nat
  sequenceNum :: nat
  skippedNum :: nat
  bpLength :: nat

datatype error =
  DivisionByZero
  | OpenFailed string
  | OutOfRange
  | KeyNotFound string

section \<open>Filter sizer\<close>

text \<open>
  The load factor is a \<^verbatim>\<open>double\<close> of the configuration; it is the rational it denotes.
  \<^verbatim>\<open>getMaxValue\<close> and \<^verbatim>\<open>calculateTotalSize\<close>: one pass over the map each.
\<close>

definition getMaxValue :: "hashCount \<Rightarrow> u64" where
  "getMaxValue hc = foldl (\<lambda>maxValue kv. if snd kv > maxValue then snd kv else maxValue) 0 hc"

definition calculateTotalSize :: "hashCount \<Rightarrow> u64" where
  "calculateTotalSize hc = foldl (\<lambda>totalSize kv. totalSize + snd kv) 0 hc"

text \<open>
  Doubles. A finite non-negative \<^verbatim>\<open>double\<close> is the rational it denotes;
  \<open>roundToDouble\<close> is IEEE 754 round-to-nearest-even to 53 significant bits, for the
  values that occur here (zero, and quotients of two integers below \<open>2 ^ 64\<close>, all
  within the normal range). \<open>bitLength\<close> and \<open>ilog2\<close> find the binary exponent.
\<close>

fun bitLength :: "nat \<Rightarrow> nat" where
  "bitLength n = (if n = 0 then 0 else Suc (bitLength (n div 2)))"

declare bitLength.simps [simp del]

definition pow2 :: "int \<Rightarrow> rat" where
  "pow2 e = (if 0 \<le> e then 2 ^ nat e else 1 / 2 ^ nat (- e))"

definition ilog2 :: "rat \<Rightarrow> int" where
  "ilog2 x =
     (let (p, q) = quotient_of x;
          d = int (bitLength (nat p)) - int (bitLength (nat q))
      in if pow2 d \<le> x then d else d - 1)"

definition roundToDouble :: "rat \<Rightarrow> rat" where
  "roundToDouble x =
     (if x \<le> 0 then 0
      else let e = ilog2 x - 52;
               y = x / pow2 e;
               m = \<lfloor>y\<rfloor>;
               r = y - of_int m;
               m' = (if r > 1 / 2 \<or> (r = 1 / 2 \<and> odd m) then m + 1 else m)
           in of_int m' * pow2 e)"

definition doubleOfU64 :: "u64 \<Rightarrow> rat" where
  "doubleOfU64 n = roundToDouble (of_nat (unat n))"

text \<open>
  The \<^verbatim>\<open>double\<close> quotient of two unsigned integers, as in
  \<^verbatim>\<open>static_cast<double>(totalSize) / (binNum * binSize)\<close>: both operands are converted,
  a zero divisor gives an infinity or a NaN and not a trap, and the quotient is rounded.
\<close>

datatype dbl = Finite rat | PosInf | NaN

definition dbl_div :: "u64 \<Rightarrow> u64 \<Rightarrow> dbl" where
  "dbl_div t d =
     (if d = 0 then (if t = 0 then NaN else PosInf)
      else Finite (roundToDouble (doubleOfU64 t / doubleOfU64 d)))"

fun dbl_gt :: "dbl \<Rightarrow> rat \<Rightarrow> bool" where
  "dbl_gt (Finite x) l = (x > l)"
| "dbl_gt PosInf l = True"
| "dbl_gt NaN l = False"

fun dbl_eq :: "dbl \<Rightarrow> rat \<Rightarrow> bool" where
  "dbl_eq (Finite x) l = (x = l)"
| "dbl_eq PosInf l = False"
| "dbl_eq NaN l = False"

text \<open>
  The reduction loop of \<^verbatim>\<open>calculateFilterSize\<close> (lines 285-290): the sum over all taxids
  of \<^verbatim>\<open>(count + binSize - 1) / binSize\<close>. Addition of words is associative and
  commutative, so the order of the parallel reduction does not matter. An integer
  division by zero is undefined behaviour in the source and an error here.
\<close>

definition binNumOf :: "hashCount \<Rightarrow> u64 \<Rightarrow> error + u64" where
  "binNumOf hc binSize =
     (if binSize = 0 \<and> hc \<noteq> [] then Inl DivisionByZero
      else Inr (foldl (\<lambda>binNum kv. binNum + (snd kv + binSize - 1) div binSize) 0 hc))"

text \<open>
  The \<^verbatim>\<open>while (minBinSize <= maxBinSize)\<close> loop. \<^verbatim>\<open>bestLoad\<close> is written and never
  read in the source and is left out. With wrapped midpoints the loop need not
  terminate, so the result is an option: \<open>None\<close> is a loop that runs forever.
\<close>

partial_function (option) sizeSearch ::
  "hashCount \<Rightarrow> rat \<Rightarrow> u64 \<Rightarrow> u64 \<Rightarrow> u64 \<Rightarrow> u64 \<Rightarrow> u64 \<Rightarrow> (error + u64 \<times> u64) option" where
  "sizeSearch hc load_factor totalSize minBinSize maxBinSize bestBinSize bestBinNum =
     (if minBinSize \<le> maxBinSize then
        (let binSize = (minBinSize + maxBinSize) div 2 in
         case binNumOf hc binSize of
           Inl e \<Rightarrow> Some (Inl e)
         | Inr binNum \<Rightarrow>
             (let load = dbl_div totalSize (binNum * binSize) in
              if dbl_gt load load_factor then
                sizeSearch hc load_factor totalSize (binSize + 1) maxBinSize bestBinSize bestBinNum
              else if dbl_eq load load_factor then Some (Inr (binSize, binNum))
              else sizeSearch hc load_factor totalSize minBinSize (binSize - 1) binSize binNum))
      else Some (Inr (bestBinSize, bestBinNum)))"

definition calculateFilterSize ::
  "hashCount \<Rightarrow> ICFConfig \<Rightarrow> rat \<Rightarrow> string \<Rightarrow> (error + ICFConfig) option" where
  "calculateFilterSize hc icfConfig load_factor mode =
     (let maxValue = getMaxValue hc;
          totalSize = calculateTotalSize hc;
          minBinSize = 1;
          maxBinSize = maxValue * 2;
          bestBinSize = maxBinSize;
          bestBinNum = 0
      in case sizeSearch hc load_factor totalSize minBinSize maxBinSize bestBinSize bestBinNum of
           None \<Rightarrow> None
         | Some (Inl e) \<Rightarrow> Some (Inl e)
         | Some (Inr (bestBinSize', bestBinNum')) \<Rightarrow>
             Some (Inr (icfConfig\<lparr>bins := bestBinNum', bin_size := bestBinSize'\<rparr>)))"

section \<open>Bin assigner\<close>

text \<open>
  Line 334: \<^verbatim>\<open>static_cast<std::size_t>(std::ceil(count / config.bin_size))\<close>. Both operands
  of the division are unsigned integers, so the quotient is the integer quotient; it is
  then converted to \<^verbatim>\<open>double\<close>, passed to \<^verbatim>\<open>std::ceil\<close> and converted back. A
  division by zero and a conversion of \<open>2 ^ 64\<close> back to \<^verbatim>\<open>size_t\<close> are undefined
  behaviour in the source and errors here.
\<close>

definition ceilToSize :: "u64 \<Rightarrow> error + u64" where
  "ceilToSize q =
     (let d = doubleOfU64 q
      in if d < 2 ^ 64 then Inr (word_of_int \<lceil>d\<rceil>) else Inl OutOfRange)"

definition binNumFor :: "ICFConfig \<Rightarrow> u64 \<Rightarrow> error + u64" where
  "binNumFor config count =
     (if bin_size config = 0 then Inl DivisionByZero
      else ceilToSize (count div bin_size config))"

fun collect :: "('a \<Rightarrow> error + 'b) \<Rightarrow> 'a list \<Rightarrow> error + 'b list" where
  "collect f [] = Inr []"
| "collect f (x # xs) =
     (case f x of
        Inl e \<Rightarrow> Inl e
      | Inr y \<Rightarrow> (case collect f xs of Inl e \<Rightarrow> Inl e | Inr ys \<Rightarrow> Inr (y # ys)))"

text \<open>
  The chunk of thread \<open>tid\<close> (lines 344-348 and 367-371). \<^verbatim>\<open>tid * num_taxids\<close> is a
  \<^verbatim>\<open>size_t\<close> product and wraps; \<^verbatim>\<open>tid + 1\<close> is an \<^verbatim>\<open>int\<close> sum of a thread number.
  \<^verbatim>\<open>omp_get_max_threads()\<close> is at least 1.
\<close>

definition chunkStart :: "nat \<Rightarrow> nat \<Rightarrow> nat \<Rightarrow> nat" where
  "chunkStart tid num_taxids num_threads = (tid * num_taxids) mod 2 ^ 64 div num_threads"

definition chunkEnd :: "nat \<Rightarrow> nat \<Rightarrow> nat \<Rightarrow> nat" where
  "chunkEnd tid num_taxids num_threads =
     (if tid = num_threads - 1 then num_taxids
      else ((tid + 1) * num_taxids) mod 2 ^ 64 div num_threads)"

text \<open>
  The local inclusive prefix of one thread (lines 350-354), over the indices
  \<open>[start..<end]\<close>. An index outside a vector is undefined behaviour in the source and
  an error here.
\<close>

fun localScan :: "u64 list \<Rightarrow> nat list \<Rightarrow> u64 \<Rightarrow> u64 list \<Rightarrow> error + u64 \<times> u64 list" where
  "localScan binNums [] local_sum prefixSum = Inr (local_sum, prefixSum)"
| "localScan binNums (i # is) local_sum prefixSum =
     (if i < length binNums \<and> i < length prefixSum then
        localScan binNums is (local_sum + binNums ! i)
          (prefixSum[i := local_sum + binNums ! i])
      else Inl OutOfRange)"

text \<open>
  The OpenMP runtime. The vectors \<^verbatim>\<open>threadSums\<close> and \<^verbatim>\<open>offsets\<close> and the chunk bounds
  are sized by \<^verbatim>\<open>omp_get_max_threads()\<close>, while the thread numbers come from
  \<^verbatim>\<open>omp_get_thread_num()\<close> inside each of the two \<^verbatim>\<open>#pragma omp parallel\<close> regions, that
  is from the team that runs the region. Neither region has a \<^verbatim>\<open>num_threads\<close> clause:
  the runtime may give a team smaller than the maximum (a thread limit, dynamic
  adjustment), and the sizes of the two teams are inputs of the model. The worksharing
  loops (\<^verbatim>\<open>#pragma omp parallel for\<close>) run all their iterations whatever the team.
\<close>

record omp =
  maxThreads :: nat
  scanTeam :: nat
  offsetTeam :: nat

definition fullTeam :: "nat \<Rightarrow> omp" where
  "fullTeam num_threads =
     \<lparr>maxThreads = num_threads, scanTeam = num_threads, offsetTeam = num_threads\<rparr>"

text \<open>
  The first parallel region (lines 341-357), the threads of its team one after the
  other. The threads write disjoint cells of \<^verbatim>\<open>prefixSum\<close> and \<^verbatim>\<open>threadSums\<close>, each
  reading only \<^verbatim>\<open>binNums\<close> and its own cells, so every interleaving gives this result.
\<close>

fun scanPhase ::
  "u64 list \<Rightarrow> nat \<Rightarrow> nat list \<Rightarrow> u64 list \<times> u64 list \<Rightarrow> error + u64 list \<times> u64 list" where
  "scanPhase binNums num_threads [] st = Inr st"
| "scanPhase binNums num_threads (tid # tids) st =
     (let num_taxids = length binNums;
          start = chunkStart tid num_taxids num_threads;
          end = chunkEnd tid num_taxids num_threads
      in case localScan binNums [start..<end] 0 (fst st) of
           Inl e \<Rightarrow> Inl e
         | Inr (local_sum, prefixSum) \<Rightarrow>
             (if tid < length (snd st) then
                scanPhase binNums num_threads tids (prefixSum, (snd st)[tid := local_sum])
              else Inl OutOfRange))"

text \<open>Lines 359-362: the exclusive prefix of the thread totals.\<close>

fun offsetsLoop :: "u64 list \<Rightarrow> nat list \<Rightarrow> u64 list \<Rightarrow> u64 list" where
  "offsetsLoop threadSums [] offsets = offsets"
| "offsetsLoop threadSums (i # is) offsets =
     offsetsLoop threadSums is (offsets[i := offsets ! (i - 1) + threadSums ! (i - 1)])"

text \<open>
  The second parallel region (lines 364-377): every thread of its team adds its offset.
\<close>

fun addOffset :: "nat list \<Rightarrow> u64 \<Rightarrow> u64 list \<Rightarrow> error + u64 list" where
  "addOffset [] offset prefixSum = Inr prefixSum"
| "addOffset (i # is) offset prefixSum =
     (if i < length prefixSum then addOffset is offset (prefixSum[i := prefixSum ! i + offset])
      else Inl OutOfRange)"

fun offsetPhase :: "nat \<Rightarrow> nat \<Rightarrow> u64 list \<Rightarrow> nat list \<Rightarrow> u64 list \<Rightarrow> error + u64 list" where
  "offsetPhase num_taxids num_threads offsets [] prefixSum = Inr prefixSum"
| "offsetPhase num_taxids num_threads offsets (tid # tids) prefixSum =
     (let start = chunkStart tid num_taxids num_threads;
          end = chunkEnd tid num_taxids num_threads
      in if tid < length offsets then
           (case addOffset [start..<end] (offsets ! tid) prefixSum of
              Inl e \<Rightarrow> Inl e
            | Inr prefixSum' \<Rightarrow> offsetPhase num_taxids num_threads offsets tids prefixSum')
         else Inl OutOfRange)"

text \<open>
  Lines 337-377. \<open>num_threads\<close> is \<^verbatim>\<open>omp_get_max_threads()\<close>; the thread numbers of a
  region are those below the size of its team.
\<close>

definition parallelPrefixSum :: "omp \<Rightarrow> u64 list \<Rightarrow> error + u64 list" where
  "parallelPrefixSum rt binNums =
     (let num_taxids = length binNums;
          num_threads = maxThreads rt;
          prefixSum = replicate num_taxids 0;
          threadSums = replicate num_threads 0
      in case scanPhase binNums num_threads [0..<scanTeam rt] (prefixSum, threadSums) of
           Inl e \<Rightarrow> Inl e
         | Inr (prefixSum', threadSums') \<Rightarrow>
             (let offsets = offsetsLoop threadSums' [1..<num_threads] (replicate num_threads 0)
              in offsetPhase num_taxids num_threads offsets [0..<offsetTeam rt] prefixSum'))"

text \<open>
  The sequential inclusive prefix sum, in the words of the specification:
  \<open>prefix[i]\<close> is the sum of \<open>b[j]\<close> over \<open>j \<le> i\<close>.
\<close>

definition inclusivePrefixSum :: "u64 list \<Rightarrow> u64 list" where
  "inclusivePrefixSum b = map (\<lambda>i. \<Sum>j\<le>i. b ! j) [0..<length b]"

text \<open>
  \<^verbatim>\<open>calculateTaxidMapBins\<close>. The result is \<^verbatim>\<open>temp_bins\<close>, the pairs in the order of
  \<^verbatim>\<open>taxid_count_vector\<close>; the returned map is read with \<open>map_of\<close>, which finds the first
  pair of a key as \<^verbatim>\<open>emplace\<close> keeps the first.
\<close>

definition calculateTaxidMapBins ::
  "omp \<Rightarrow> ICFConfig \<Rightarrow> hashCount \<Rightarrow> error + (taxid \<times> u64) list" where
  "calculateTaxidMapBins rt config hc =
     (let taxid_count_vector = hc
      in case collect (\<lambda>(taxid, count). binNumFor config count) taxid_count_vector of
           Inl e \<Rightarrow> Inl e
         | Inr binNums \<Rightarrow>
             (case parallelPrefixSum rt binNums of
                Inl e \<Rightarrow> Inl e
              | Inr prefixSum \<Rightarrow> Inr (zip (map fst taxid_count_vector) prefixSum)))"

section \<open>Filter builder\<close>

text \<open>
  The scratch directory maps a taxid to the content of \<^verbatim>\<open>tmp/<taxid>.mini\<close>, the list
  of 64-bit words the file holds (it is written eight bytes at a time). The class
  \<^verbatim>\<open>InterleavedCuckooFilter\<close> is outside the sources; the filter is the list of the
  \<^verbatim>\<open>insertTag(binIndex, hash)\<close> calls made on it, oldest first.
\<close>

type_synonym scratch = "taxid \<rightharpoonup> u64 list"

type_synonym icf = "(u64 \<times> u64) list"

text \<open>The read loop of \<^verbatim>\<open>processTaxid\<close> (lines 421-432).\<close>

fun insertLoop :: "u64 \<Rightarrow> u64 \<Rightarrow> u64 list \<Rightarrow> u64 \<Rightarrow> icf \<Rightarrow> icf" where
  "insertLoop start end [] currentPos icf = icf"
| "insertLoop start end (hash # rest) currentPos icf =
     (let icf' = icf @ [(currentPos, hash)];
          currentPos' = currentPos + 1
      in insertLoop start end rest (if currentPos' = end then start else currentPos') icf')"

definition processTaxid :: "taxid \<Rightarrow> u64 \<Rightarrow> u64 \<Rightarrow> icf \<times> scratch \<Rightarrow> icf \<times> scratch" where
  "processTaxid taxid start end st =
     (case snd st taxid of
        None \<Rightarrow> st
      | Some hashes \<Rightarrow> (insertLoop start end hashes start (fst st), (snd st)(taxid := None)))"

text \<open>
  The first loop of \<^verbatim>\<open>build\<close> (lines 462-467): the range of a taxid starts where the
  range of the taxid before it in the iteration order of \<^verbatim>\<open>hashCount\<close> ends.
  \<^verbatim>\<open>taxidBins.at\<close> throws on a missing key.
\<close>

fun taxidInfoPairs ::
  "(taxid \<times> u64) list \<Rightarrow> hashCount \<Rightarrow> u64 \<Rightarrow> error + (taxid \<times> u64 \<times> u64) list" where
  "taxidInfoPairs taxidBins [] previousEnd = Inr []"
| "taxidInfoPairs taxidBins ((taxid, count) # rest) previousEnd =
     (case map_of taxidBins taxid of
        None \<Rightarrow> Inl (KeyNotFound taxid)
      | Some currentEnd \<Rightarrow>
          (case taxidInfoPairs taxidBins rest currentEnd of
             Inl e \<Rightarrow> Inl e
           | Inr pairs \<Rightarrow> Inr ((taxid, previousEnd, currentEnd) # pairs)))"

text \<open>
  \<^verbatim>\<open>build\<close>: the taxids are processed in parallel; here one after the other, so the
  calls of different taxids appear in the filter's list in the order of the pairs.
\<close>

definition build :: "(taxid \<times> u64) list \<Rightarrow> hashCount \<Rightarrow> icf \<times> scratch \<Rightarrow> error + icf \<times> scratch" where
  "build taxidBins hc st =
     (case taxidInfoPairs taxidBins hc 0 of
        Inl e \<Rightarrow> Inl e
      | Inr taxid_info_pairs \<Rightarrow>
          Inr (foldl (\<lambda>st (taxid, start, end). processTaxid taxid start end st) st
                 taxid_info_pairs))"

section \<open>Input parser\<close>

text \<open>
  \<^verbatim>\<open>std::getline\<close> in a loop: the lines of a text, split at the newline character; a
  last line without a newline counts when it is not empty.
\<close>

fun getlines :: "string \<Rightarrow> string \<Rightarrow> string list" where
  "getlines line [] = (if line = [] then [] else [line])"
| "getlines line (c # cs) =
     (if c = CHR 0x0A then line # getlines [] cs else getlines (line @ [c]) cs)"

text \<open>
  \<^verbatim>\<open>iss >> token\<close> on a \<^verbatim>\<open>std::string\<close>: skip white space, then read up to the next
  white space; the extraction fails when no character is read.
\<close>

definition isspace :: "char \<Rightarrow> bool" where
  "isspace c = (c \<in> set [CHR 0x20, CHR 0x09, CHR 0x0A, CHR 0x0B, CHR 0x0C, CHR 0x0D])"

definition readToken :: "string \<Rightarrow> (string \<times> string) option" where
  "readToken s =
     (let s' = dropWhile isspace s;
          token = takeWhile (\<lambda>c. \<not> isspace c) s';
          rest = dropWhile (\<lambda>c. \<not> isspace c) s'
      in if token = [] then None else Some (token, rest))"

definition parseLine :: "string \<Rightarrow> (string \<times> string) option" where
  "parseLine line =
     (case readToken line of
        None \<Rightarrow> None
      | Some (filePath, rest) \<Rightarrow>
          (case readToken rest of
             None \<Rightarrow> None
           | Some (taxidStr, rest') \<Rightarrow> Some (filePath, taxidStr)))"

text \<open>
  The body of the \<^verbatim>\<open>while\<close> loop of \<^verbatim>\<open>parseInputFile\<close>. \<^verbatim>\<open>hashCount[taxidStr] = 0\<close>
  is \<open>AList.update\<close> and \<^verbatim>\<open>inputFiles[taxidStr].push_back(filePath)\<close> is
  \<open>map_default\<close>: a new key goes to the end of the list, which is one of the iteration
  orders the hash map may have.
\<close>

type_synonym parseState = "inputFiles \<times> hashCount \<times> FileInfo"

definition parseStep :: "parseState \<Rightarrow> string \<Rightarrow> parseState" where
  "parseStep st line =
     (case st of (inputFiles, hashCount, fileInfo) \<Rightarrow>
        (case parseLine line of
           None \<Rightarrow> (inputFiles, hashCount, fileInfo\<lparr>invalidNum := invalidNum fileInfo + 1\<rparr>)
         | Some (filePath, taxidStr) \<Rightarrow>
             (map_default taxidStr [filePath] (\<lambda>files. files @ [filePath]) inputFiles,
              AList.update taxidStr 0 hashCount,
              fileInfo\<lparr>fileNum := fileNum fileInfo + 1\<rparr>)))"

text \<open>
  \<^verbatim>\<open>parseInputFile\<close>: \<open>None\<close> is a manifest that cannot be opened, which leaves
  everything as it was.
\<close>

definition parseInputFile :: "string option \<Rightarrow> parseState \<Rightarrow> parseState" where
  "parseInputFile file st =
     (case file of
        None \<Rightarrow> st
      | Some content \<Rightarrow> foldl parseStep st (getlines [] content))"

section \<open>Minimizer counter\<close>

text \<open>
  Modelled from the spec: \<^verbatim>\<open>BuildConfig\<close> is declared in \<^verbatim>\<open>ChimeraBuild.hpp\<close>, which is
  not among the sources; of its fields \<^verbatim>\<open>minimiser_count\<close> reads \<^verbatim>\<open>min_length\<close>, and
  \<^verbatim>\<open>kmer_size\<close> and \<^verbatim>\<open>window_size\<close> to set up the minimiser view of the sequence
  library. That view and the sequence-file decoder are library code: a record of a
  sequence file is given here by its length \<^verbatim>\<open>seq.size()\<close> and by the minimiser hashes
  the view yields for it.
\<close>

record BuildConfig =
  min_length :: nat

type_synonym seqRecord = "nat \<times> u64 list"

record environment =
  sequenceFiles :: "string \<rightharpoonup> seqRecord list"
  scratchOpens :: "taxid \<Rightarrow> bool"

text \<open>Lines 161-167: the pairs \<open>(taxid, file)\<close>, in the order of the map and of the lists.\<close>

definition taxidFilePairs :: "inputFiles \<Rightarrow> (taxid \<times> string) list" where
  "taxidFilePairs inputFiles =
     concat (map (\<lambda>(taxid, files). map (\<lambda>file. (taxid, file)) files) inputFiles)"

text \<open>
  The loop over the records of one file (lines 187-199): the counters and the set
  \<^verbatim>\<open>hashes\<close>, a list without duplicates.
\<close>

fun readRecords :: "BuildConfig \<Rightarrow> seqRecord list \<Rightarrow> FileInfo \<times> u64 list \<Rightarrow> FileInfo \<times> u64 list" where
  "readRecords config [] st = st"
| "readRecords config ((len, minihash) # recs) (threadFileInfo, hashes) =
     (if len < min_length config then
        readRecords config recs
          (threadFileInfo\<lparr>skippedNum := skippedNum threadFileInfo + 1\<rparr>, hashes)
      else
        readRecords config recs
          (threadFileInfo\<lparr>sequenceNum := sequenceNum threadFileInfo + 1,
                           bpLength := bpLength threadFileInfo + len\<rparr>,
           fold List.insert minihash hashes))"

text \<open>
  The parallel loop over the pairs (lines 180-216) as one thread runs it. A sequence
  file that cannot be opened raises in the library, inside the parallel region, and ends
  the program; a scratch file that cannot be opened is skipped after the count is added.
\<close>

type_synonym countState = "hashCount \<times> FileInfo \<times> scratch"

fun countLoop ::
  "BuildConfig \<Rightarrow> environment \<Rightarrow> (taxid \<times> string) list \<Rightarrow> countState \<Rightarrow> error + countState" where
  "countLoop config env [] st = Inr st"
| "countLoop config env ((taxid, file) # pairs) (threadHashCount, threadFileInfo, tmp) =
     (case sequenceFiles env file of
        None \<Rightarrow> Inl (OpenFailed file)
      | Some fin \<Rightarrow>
          (let (threadFileInfo', hashes) = readRecords config fin (threadFileInfo, []);
               threadHashCount' =
                 map_default taxid (of_nat (length hashes)) (\<lambda>c. c + of_nat (length hashes))
                   threadHashCount;
               tmp' = (if scratchOpens env taxid
                       then tmp(taxid \<mapsto> (case tmp taxid of None \<Rightarrow> [] | Some ws \<Rightarrow> ws) @ hashes)
                       else tmp)
           in countLoop config env pairs (threadHashCount', threadFileInfo', tmp')))"

text \<open>
  \<^verbatim>\<open>minimiser_count\<close>. Every thread adds its own \<^verbatim>\<open>threadHashCount\<close> and
  \<^verbatim>\<open>threadFileInfo\<close> to the shared ones under a mutex (lines 218-230); the sums do not
  depend on how the pairs were dealt to the threads, and the embedding has one thread.
\<close>

definition mergeCounts :: "hashCount \<Rightarrow> hashCount \<Rightarrow> hashCount" where
  "mergeCounts hashCount threadHashCount =
     foldl (\<lambda>hc (taxid, count). map_default taxid count (\<lambda>c. c + count) hc)
       hashCount threadHashCount"

definition minimiser_count ::
  "BuildConfig \<Rightarrow> environment \<Rightarrow> inputFiles \<Rightarrow> countState \<Rightarrow> error + countState" where
  "minimiser_count config env inputFiles st =
     (case st of (hashCount, fileInfo, tmp) \<Rightarrow>
        (case countLoop config env (taxidFilePairs inputFiles)
                ([], \<lparr>fileNum = 0, invalidNum = 0, sequenceNum = 0, skippedNum = 0, bpLength = 0\<rparr>, tmp) of
           Inl e \<Rightarrow> Inl e
         | Inr (threadHashCount, threadFileInfo, tmp') \<Rightarrow>
             Inr (mergeCounts hashCount threadHashCount,
                  fileInfo\<lparr>skippedNum := skippedNum fileInfo + skippedNum threadFileInfo,
                           sequenceNum := sequenceNum fileInfo + sequenceNum threadFileInfo,
                           bpLength := bpLength fileInfo + bpLength threadFileInfo\<rparr>,
                  tmp')))"

section \<open>The quantities of the specification\<close>

text \<open>
  The specification's \<open>T\<close>, \<open>N(b)\<close> and \<open>\<ell>(b)\<close>, in its own words and over unbounded
  numbers: \<open>N(b)\<close> is the sum over the taxids of \<open>ceil(hashCount[t] / b)\<close>, \<open>T\<close> the sum of
  the counts, and \<open>\<ell>(b) = T / (N(b) \<cdot> b)\<close>.
\<close>

definition ceilDiv :: "nat \<Rightarrow> nat \<Rightarrow> nat" where
  "ceilDiv c b = nat \<lceil>rat_of_nat c / rat_of_nat b\<rceil>"

definition specTotal :: "hashCount \<Rightarrow> nat" where
  "specTotal hc = sum_list (map (\<lambda>kv. unat (snd kv)) hc)"

definition specBins :: "hashCount \<Rightarrow> nat \<Rightarrow> nat" where
  "specBins hc b = sum_list (map (\<lambda>kv. ceilDiv (unat (snd kv)) b) hc)"

definition specLoad :: "hashCount \<Rightarrow> nat \<Rightarrow> rat" where
  "specLoad hc b = rat_of_nat (specTotal hc) / rat_of_nat (specBins hc b * b)"

text \<open>
  The whitespace-separated tokens of a line, the maximal runs of characters that are not
  white space, and the text made of newline-terminated lines: the specification's view of
  a manifest.
\<close>

fun splitTokens :: "string \<Rightarrow> string \<Rightarrow> string list" where
  "splitTokens token [] = (if token = [] then [] else [token])"
| "splitTokens token (c # cs) =
     (if isspace c then (if token = [] then splitTokens [] cs else token # splitTokens [] cs)
      else splitTokens (token @ [c]) cs)"

definition tokensOf :: "string \<Rightarrow> string list" where
  "tokensOf line = splitTokens [] line"

definition joinLines :: "string list \<Rightarrow> string" where
  "joinLines ls = concat (map (\<lambda>line. line @ [CHR 0x0A]) ls)"

text \<open>
  The count of a taxid (\<open>0\<close> for a key that is absent), the files listed under a taxid,
  and the set of minimizer hashes observed in one file: those of its sequences that are
  not shorter than \<^verbatim>\<open>min_length\<close>.
\<close>

definition countOf :: "hashCount \<Rightarrow> taxid \<Rightarrow> u64" where
  "countOf hc t = (case map_of hc t of None \<Rightarrow> 0 | Some c \<Rightarrow> c)"

definition filesOf :: "inputFiles \<Rightarrow> taxid \<Rightarrow> string list" where
  "filesOf inputFiles t = concat (map snd (filter (\<lambda>p. fst p = t) inputFiles))"

definition recordHashes :: "BuildConfig \<Rightarrow> seqRecord list \<Rightarrow> u64 set" where
  "recordHashes config fin =
     \<Union> (set (map (\<lambda>r. set (snd r)) (filter (\<lambda>r. \<not> fst r < min_length config) fin)))"

definition fileHashSet :: "BuildConfig \<Rightarrow> environment \<Rightarrow> string \<Rightarrow> u64 set" where
  "fileHashSet config env file =
     (case sequenceFiles env file of None \<Rightarrow> {} | Some fin \<Rightarrow> recordHashes config fin)"

text \<open>
  The load that the body of the search loop computes for a candidate \<open>binSize\<close>
  (lines 283-292), in the arithmetic of the source.
\<close>

definition probeLoad :: "hashCount \<Rightarrow> u64 \<Rightarrow> u64 \<Rightarrow> dbl" where
  "probeLoad hc totalSize binSize =
     (case binNumOf hc binSize of
        Inl e \<Rightarrow> NaN
      | Inr binNum \<Rightarrow> dbl_div totalSize (binNum * binSize))"

section \<open>The insertion positions of \<^verbatim>\<open>processTaxid\<close>\<close>

lemma insertLoop_empty_range:
  "insertLoop s s hashes cur icf = icf @ map (\<lambda>j. (cur + of_nat j, hashes ! j)) [0..<length hashes]"
proof (induction hashes arbitrary: cur icf)
  case Nil
  then show ?case by simp
next
  case (Cons h rest)
  have step: "(if cur + 1 = s then s else cur + 1) = cur + 1" by simp
  show ?case
    by (simp only: insertLoop.simps Let_def step Cons.IH)
       (simp add: map_upt_Suc add.assoc del: upt_Suc)
qed

lemma next_pos:
  fixes start cur :: u64
  assumes "start \<le> cur" "cur < end"
  defines "cur' \<equiv> (if cur + 1 = end then start else cur + 1)"
  shows "start \<le> cur'" "cur' < end"
    "unat (cur' - start) = (unat (cur - start) + 1) mod unat (end - start)"
proof -
  have lt: "unat cur < unat end" using assms(2) by (simp add: word_less_nat_alt)
  have "unat cur + unat (1 :: u64) < 2 ^ LENGTH(64)"
    using lt unsigned_less [of "end", where ?'a = nat] by simp
  then have u1: "unat (cur + 1) = unat cur + 1"
    using unat_add_lem [of cur 1] by simp
  have le: "unat start \<le> unat cur" using assms(1) by (simp add: word_le_nat_alt)
  have se: "start \<le> end" using assms by simp
  have w: "unat (end - start) = unat end - unat start" using se by (simp add: unat_sub)
  have o: "unat (cur - start) = unat cur - unat start" using assms(1) by (simp add: unat_sub)
  show "start \<le> cur'" unfolding cur'_def using le u1 by (auto simp: word_le_nat_alt)
  show "cur' < end" unfolding cur'_def using lt le u1 
    by (auto simp: word_less_nat_alt word_unat_eq_iff)
  show "unat (cur' - start) = (unat (cur - start) + 1) mod unat (end - start)"
  proof (cases "cur + 1 = end")
    case True
    then have "unat end = unat cur + 1" using u1 by simp
    then show ?thesis unfolding cur'_def using True w o le by (simp add: Suc_diff_le)
  next
    case False
    then have "unat cur + 1 \<noteq> unat end" using u1 by (simp add: word_unat_eq_iff)
    then have "unat cur + 1 < unat end" using lt by simp
    moreover have "unat (cur + 1 - start) = unat cur + 1 - unat start"
      using le u1 by (simp add: unat_sub word_le_nat_alt)
    ultimately show ?thesis unfolding cur'_def using False w o le by (simp add: Suc_diff_le)
  qed
qed

lemma insertLoop_round_robin:
  fixes start cur :: u64
  assumes "start \<le> cur" "cur < end"
  shows "insertLoop start end hashes cur icf =
    icf @ map (\<lambda>j. (start + of_nat ((unat (cur - start) + j) mod unat (end - start)), hashes ! j))
            [0..<length hashes]"
  using assms
proof (induction hashes arbitrary: cur icf)
  case Nil
  then show ?case by simp
next
  case (Cons h rest)
  let ?cur' = "if cur + 1 = end then start else cur + 1"
  let ?w = "unat (end - start)"
  note np = next_pos [OF Cons.prems]
  have o_lt: "unat (cur - start) < ?w"
    using Cons.prems by (simp add: unat_sub word_less_nat_alt word_le_nat_alt) 
  have first: "start + of_nat (unat (cur - start) mod ?w) = cur"
    using o_lt by simp
  have shift: "(unat (?cur' - start) + j) mod ?w = (unat (cur - start) + Suc j) mod ?w" for j
    using np(3) by (simp add: mod_add_left_eq)
  have "insertLoop start end (h # rest) cur icf = insertLoop start end rest ?cur' (icf @ [(cur, h)])"
    by (simp add: Let_def)
  also have "\<dots> = (icf @ [(cur, h)]) @ map (\<lambda>j. (start + of_nat ((unat (?cur' - start) + j) mod ?w), rest ! j))
            [0..<length rest]"
    by (rule Cons.IH [OF np(1) np(2)])
  also have "\<dots> = icf @ map (\<lambda>j. (start + of_nat ((unat (cur - start) + j) mod ?w), (h # rest) ! j))
            [0..<length (h # rest)]"
    using first by (simp add: map_upt_Suc shift del: upt_Suc)
  finally show ?case .
qed


lemma offset_in_range:
  fixes start :: u64
  assumes "start \<le> end" "k < unat (end - start)"
  shows "start \<le> start + of_nat k \<and> start + of_nat k < end"
proof -
  have w: "unat (end - start) = unat end - unat start"
    using assms(1) by (simp add: unat_sub)
  have "unat end < 2 ^ LENGTH(64)" by (rule unsigned_less)
  then have k: "k < 2 ^ LENGTH(64)" using assms(2) w by simp
  then have uk: "unat (of_nat k :: u64) = k" by (simp add: unat_of_nat)
  have "unat start + unat (of_nat k :: u64) < 2 ^ LENGTH(64)"
    using uk assms(2) w \<open>unat end < 2 ^ LENGTH(64)\<close> by simp
  then have "unat (start + of_nat k) = unat start + k"
    using unat_add_lem [of start "of_nat k"] uk by simp
  then show ?thesis using assms(2) w by (simp add: word_le_nat_alt word_less_nat_alt)
qed

text \<open>
  Claim C7. For a range with \<open>start < end\<close> and a scratch file that opens,
  \<^verbatim>\<open>processTaxid\<close> calls \<^verbatim>\<open>insertTag\<close> for the \<open>j\<close>-th hash of the file (from 0) at bin
  \<open>start + (j mod (end - start))\<close>, in file order and after the calls already made; every
  one of these bins lies in \<open>[start, end)\<close>; and the scratch file is gone afterwards.
\<close>

theorem processTaxid_round_robin:
  assumes "start < end" "tmp taxid = Some hashes"
  shows "processTaxid taxid start end (icf, tmp) =
           (icf @ map (\<lambda>j. (start + of_nat (j mod unat (end - start)), hashes ! j))
                    [0..<length hashes],
            tmp(taxid := None))
         \<and> (\<forall>j < length hashes.
               start \<le> start + of_nat (j mod unat (end - start))
               \<and> start + of_nat (j mod unat (end - start)) < end)"
proof -
  have le: "start \<le> start" by simp
  have se: "start \<le> end" using assms(1) by simp
  have pos: "0 < unat (end - start)"
    using assms(1) unat_sub [OF se] by (simp add: word_less_nat_alt)
  have "insertLoop start end hashes start icf =
          icf @ map (\<lambda>j. (start + of_nat (j mod unat (end - start)), hashes ! j)) [0..<length hashes]"
    using insertLoop_round_robin [OF le assms(1), of hashes icf] by simp
  moreover have "start \<le> start + of_nat (j mod unat (end - start))
               \<and> start + of_nat (j mod unat (end - start)) < end" for j
    using offset_in_range [of start "end" "j mod unat (end - start)"] se pos by simp
  ultimately show ?thesis using assms(2) by (simp add: processTaxid_def)
qed

theorem processTaxid_round_robin_witness:
  "(3 :: u64) < 5 \<and>
   processTaxid ''t1'' 3 5 ([], [''t1'' \<mapsto> [11, 12, 13]]) =
     ([(3, 11), (4, 12), (3, 13)], Map.empty)"
  using processTaxid_round_robin [of 3 5 "[''t1'' \<mapsto> [11, 12, 13]]" "''t1''" "[11, 12, 13]" "[]"]
  by (simp add: upt_rec)

text \<open>
  Claim C10. With \<open>start = end\<close> the test \<^verbatim>\<open>currentPos == end\<close> comes after the
  increment and never resets the position: the \<open>j\<close>-th hash is inserted at bin
  \<open>start + j\<close> (in 64-bit arithmetic). The range \<open>[start, start)\<close> is empty, so each of these
  bins is outside it; for \<open>1 \<le> j < 2 ^ 64\<close> the bin differs from \<open>start\<close>, and as soon as
  \<open>start + j\<close> reaches the bin count of the filter the bin is beyond the filter.
\<close>

theorem processTaxid_empty_range:
  assumes "tmp taxid = Some hashes"
  shows "processTaxid taxid start start (icf, tmp) =
           (icf @ map (\<lambda>j. (start + of_nat j, hashes ! j)) [0..<length hashes],
            tmp(taxid := None))
         \<and> (\<forall>j. 1 \<le> j \<and> j < 2 ^ 64 \<longrightarrow> start + of_nat j \<noteq> start)
         \<and> (\<forall>j. unat (bins config) \<le> unat start + j \<and> unat start + j < 2 ^ 64 \<longrightarrow>
                bins config \<le> start + of_nat j)"
proof -
  have a: "processTaxid taxid start start (icf, tmp) =
           (icf @ map (\<lambda>j. (start + of_nat j, hashes ! j)) [0..<length hashes],
            tmp(taxid := None))"
    using assms by (simp add: processTaxid_def insertLoop_empty_range)
  have b: "start + of_nat j \<noteq> start" if "1 \<le> j" "j < 2 ^ 64" for j
  proof -
    have "unat (of_nat j :: u64) = j" using that by (simp add: unat_of_nat)
    then have "(of_nat j :: u64) \<noteq> 0" using that by (metis not_one_le_zero unat_0)
    then show ?thesis by simp
  qed
  have c: "bins config \<le> start + of_nat j" if "unat (bins config) \<le> unat start + j" "unat start + j < 2 ^ 64" for j
  proof -
    have uk: "unat (of_nat j :: u64) = j" using that by (simp add: unat_of_nat)
    then have "unat (start + of_nat j) = unat start + j"
      using unat_add_lem [of start "of_nat j"] that by simp
    then show ?thesis using that by (simp add: word_le_nat_alt)
  qed
  show ?thesis using a b c by blast
qed

theorem processTaxid_empty_range_witness:
  "processTaxid ''t1'' 3 3 ([], [''t1'' \<mapsto> [11, 12, 13]]) =
     ([(3, 11), (4, 12), (5, 13)], Map.empty)
   \<and> (4 :: u64) \<le> 3 + of_nat 2"
  using processTaxid_empty_range [of "[''t1'' \<mapsto> [11, 12, 13]]" "''t1''" "[11, 12, 13]" 3 "[]"
        "\<lparr>kmer_size = 19, window_size = 31, bins = 4, bin_size = 14\<rparr>"]
  by (simp add: upt_rec)


section \<open>The filter sizer and the bin assigner on concrete inputs\<close>

lemma getMaxValue_all_zero:
  "\<forall>kv \<in> set hc. snd kv = 0 \<Longrightarrow> getMaxValue hc = 0"
  unfolding getMaxValue_def by (induction hc) auto

lemma dbl_div_examples:
  "dbl_div 10 10 = Finite 1"
  "dbl_div 10 15 = Finite (6004799503160661 / 9007199254740992)"
  "dbl_div 10 18 = Finite (5003999585967218 / 9007199254740992)"
  "dbl_div 10 19 = Finite (4740631186705785 / 9007199254740992)"
  "dbl_div 10 20 = Finite (1 / 2)"
  "dbl_div 26 26 = Finite 1"
  "dbl_div 26 28 = Finite (8363827879402350 / 9007199254740992)"
  "dbl_div 26 30 = Finite (7806239354108860 / 9007199254740992)"
  "dbl_div 4 4 = Finite 1"
  "dbl_div 4 6 = Finite (6004799503160661 / 9007199254740992)"
  by code_simp+

lemma ceilToSize_examples:
  "ceilToSize 3 = Inr 3"
  "ceilToSize 4 = Inr 4"
  "ceilToSize 5 = Inr 5"
  by code_simp+

lemmas sizer_eval =
  calculateFilterSize_def sizeSearch.simps getMaxValue_def calculateTotalSize_def binNumOf_def
  word_le_nat_alt word_less_nat_alt dbl_div_examples

lemmas assigner_eval =
  calculateTaxidMapBins_def binNumFor_def ceilToSize_examples parallelPrefixSum_def
  fullTeam_def chunkStart_def chunkEnd_def upt_rec

lemma spec_examples:
  "ceilDiv 7 2 = 4"
  "specTotal [(''t1'', 10)] = 10"
  "specLoad [(''t1'', 10)] 20 = 1 / 2"
  "specLoad [(''t1'', 10)] 11 = 10 / 11"
  "specLoad [(''t1'', 2), (''t2'', 2)] 3 = 2 / 3"
  by code_simp+

lemma wide_examples:
  "specLoad [(''t1'', 9223372036854775808), (''t2'', 9223372036854775808)]
     9223372036854775808 = 1"
  by (simp add: specLoad_def specTotal_def specBins_def ceilDiv_def)

text \<open>
  When every count is zero the maximum is \<open>0\<close>, the initial best bin size is twice the
  maximum, and the loop body never runs: \<^verbatim>\<open>bin_size\<close> and \<^verbatim>\<open>bins\<close> are both set to \<open>0\<close>.
\<close>

lemma calculateFilterSize_all_zero:
  assumes "\<forall>kv \<in> set hc. snd kv = 0"
  shows "calculateFilterSize hc icfConfig load_factor mode =
           Some (Inr (icfConfig\<lparr>bins := 0, bin_size := 0\<rparr>))"
proof -
  have "getMaxValue hc = 0"
    using assms by (rule getMaxValue_all_zero)
  then show ?thesis
    by (simp add: calculateFilterSize_def sizeSearch.simps)
qed

text \<open>
  Claim C2 at a failing input: one taxid whose count is zero (all its sequences are
  shorter than \<^verbatim>\<open>min_length\<close>). The sizer sets \<^verbatim>\<open>bin_size\<close> to \<open>0\<close>, below its own
  smallest candidate \<^verbatim>\<open>minBinSize = 1\<close> and not the \<open>1\<close> of the claim, and the bin assigner,
  given that configuration, divides the count by zero at line 334.
\<close>

theorem calculateFilterSize_zero_count:
  "calculateFilterSize [(''t1'', 0)]
     \<lparr>kmer_size = 19, window_size = 31, bins = 7, bin_size = 7\<rparr> (15 / 16) ''default'' =
     Some (Inr \<lparr>kmer_size = 19, window_size = 31, bins = 0, bin_size = 0\<rparr>)
   \<and> calculateTaxidMapBins (fullTeam 2) \<lparr>kmer_size = 19, window_size = 31, bins = 0, bin_size = 0\<rparr>
       [(''t1'', 0)] =
     Inl DivisionByZero"
  by (simp add: calculateFilterSize_all_zero calculateTaxidMapBins_def binNumFor_def)

text \<open>
  Claim C6 at a failing input: one taxid with 10 hashes and load factor \<open>1/4\<close>. Every
  candidate in \<open>[1, 20]\<close> that the search tries has a load above \<open>1/4\<close>, no candidate is
  recorded, and the sizer returns \<^verbatim>\<open>bins = 0\<close> with \<^verbatim>\<open>bin_size = 20\<close>: the capacity
  \<^verbatim>\<open>bins \<times> bin_size\<close> is \<open>0\<close>, below the 10 hashes of the claim.
\<close>

theorem calculateFilterSize_low_load_factor:
  "calculateFilterSize [(''t1'', 10)]
     \<lparr>kmer_size = 19, window_size = 31, bins = 7, bin_size = 7\<rparr> (1 / 4) ''default'' =
     Some (Inr \<lparr>kmer_size = 19, window_size = 31, bins = 0, bin_size = 20\<rparr>)
   \<and> (0 :: nat) * 20 < specTotal [(''t1'', 10)]"
  by (simp add: sizer_eval spec_examples)

text \<open>
  Claim C1 at a failing input: three taxids with 10, 7 and 9 hashes, \<^verbatim>\<open>bin_size = 2\<close>
  (what the sizer chooses for them at load factor \<open>15/16\<close>), two threads. The range of
  \<open>t2\<close> is \<open>[5, 8)\<close>, of width \<open>3\<close>, where \<open>ceil(7 / 2) = 4\<close>: the quotient of line 334 is an
  integer quotient, already rounded down when \<^verbatim>\<open>std::ceil\<close> sees it.
\<close>

theorem calculateTaxidMapBins_rounds_down:
  "calculateTaxidMapBins (fullTeam 2) \<lparr>kmer_size = 19, window_size = 31, bins = 14, bin_size = 2\<rparr>
     [(''t1'', 10), (''t2'', 7), (''t3'', 9)] =
     Inr [(''t1'', 5), (''t2'', 8), (''t3'', 12)]
   \<and> taxidInfoPairs [(''t1'', 5), (''t2'', 8), (''t3'', 12)]
       [(''t1'', 10), (''t2'', 7), (''t3'', 9)] 0 =
     Inr [(''t1'', 0, 5), (''t2'', 5, 8), (''t3'', 8, 12)]
   \<and> ceilDiv 7 2 = 4"
  by (simp add: assigner_eval spec_examples)

text \<open>
  Claim C3 at a failing input: for the same three taxids and load factor \<open>15/16\<close> the
  sizer sets \<^verbatim>\<open>bins = 14\<close> (\<open>5 + 4 + 5\<close>, rounding up), and the assigner, given that
  configuration, ends its prefix sums at \<open>12\<close> (\<open>5 + 3 + 4\<close>, rounding down).
\<close>

theorem calculateTaxidMapBins_total_differs:
  "calculateFilterSize [(''t1'', 10), (''t2'', 7), (''t3'', 9)]
     \<lparr>kmer_size = 19, window_size = 31, bins = 0, bin_size = 0\<rparr> (15 / 16) ''default'' =
     Some (Inr \<lparr>kmer_size = 19, window_size = 31, bins = 14, bin_size = 2\<rparr>)
   \<and> map_sum id last
       (calculateTaxidMapBins (fullTeam 4) \<lparr>kmer_size = 19, window_size = 31, bins = 14, bin_size = 2\<rparr>
          [(''t1'', 10), (''t2'', 7), (''t3'', 9)]) =
     Inr (''t3'', 12)"
  by (simp add: sizer_eval assigner_eval)

text \<open>
  Claim C4, as stated, fails: for one taxid with 10 hashes and load factor \<open>1\<close> the first
  candidate, \<open>10\<close>, has load exactly \<open>1\<close> and is returned. Yet \<open>20\<close> lies in \<open>[1, 2 \<cdot> 10]\<close> and
  has load \<open>1/2 \<le> 1\<close>, so \<open>10\<close> is not the largest such bin size; and the next bin size,
  \<open>11\<close>, has load \<open>10/11 \<le> 1\<close> as well, while the bin size is not \<open>1\<close>.

  Two more inputs concern the arithmetic. For two taxids with 2 hashes each and the load
  factor \<open>6004799503160661 / 2 ^ 53\<close> (the \<^verbatim>\<open>double\<close> nearest to \<open>2/3\<close>, just below it) bin size
  \<open>3\<close> is returned, for which \<open>T / (N(b) \<cdot> b) = 2/3\<close> is above the load factor: what the code
  compares is the quotient rounded to a \<^verbatim>\<open>double\<close>. For two taxids with \<open>2 ^ 63\<close> hashes
  each and load factor \<open>1\<close>, \<^verbatim>\<open>maxValue * 2\<close> wraps to \<open>0\<close>, the loop never runs and
  \<^verbatim>\<open>bins = 0\<close>, \<^verbatim>\<open>bin_size = 0\<close> are returned, although the bin size \<open>2 ^ 63\<close> of \<open>[1, 2 \<cdot> max]\<close>
  has \<open>T / (N(b) \<cdot> b) = 1\<close>.
\<close>

theorem calculateFilterSize_not_largest_counterexample:
  "calculateFilterSize [(''t1'', 10)]
     \<lparr>kmer_size = 19, window_size = 31, bins = 0, bin_size = 0\<rparr> 1 ''default'' =
     Some (Inr \<lparr>kmer_size = 19, window_size = 31, bins = 1, bin_size = 10\<rparr>)
   \<and> (20 :: nat) \<le> 2 * unat (getMaxValue [(''t1'', 10)])
   \<and> specLoad [(''t1'', 10)] 20 \<le> 1
   \<and> specLoad [(''t1'', 10)] 11 \<le> 1
   \<and> (10 :: u64) \<noteq> 1
   \<and> calculateFilterSize [(''t1'', 2), (''t2'', 2)]
       \<lparr>kmer_size = 19, window_size = 31, bins = 0, bin_size = 0\<rparr>
       (6004799503160661 / 9007199254740992) ''default'' =
       Some (Inr \<lparr>kmer_size = 19, window_size = 31, bins = 2, bin_size = 3\<rparr>)
   \<and> 6004799503160661 / 9007199254740992 < specLoad [(''t1'', 2), (''t2'', 2)] 3
   \<and> calculateFilterSize [(''t1'', 9223372036854775808), (''t2'', 9223372036854775808)]
       \<lparr>kmer_size = 19, window_size = 31, bins = 7, bin_size = 7\<rparr> 1 ''default'' =
       Some (Inr \<lparr>kmer_size = 19, window_size = 31, bins = 0, bin_size = 0\<rparr>)
   \<and> (9223372036854775808 :: nat) \<le>
       2 * unat (getMaxValue [(''t1'', 9223372036854775808), (''t2'', 9223372036854775808)])
   \<and> specLoad [(''t1'', 9223372036854775808), (''t2'', 9223372036854775808)]
       9223372036854775808 \<le> 1"
  by (simp add: sizer_eval spec_examples wide_examples)


section \<open>The input parser\<close>

lemma splitTokens_run:
  "splitTokens token s =
     (if token @ takeWhile (\<lambda>c. \<not> isspace c) s = []
      then splitTokens [] (dropWhile (\<lambda>c. \<not> isspace c) s)
      else (token @ takeWhile (\<lambda>c. \<not> isspace c) s)
             # splitTokens [] (dropWhile (\<lambda>c. \<not> isspace c) s))"
  by (induction s arbitrary: token) auto

lemma splitTokens_skip: "splitTokens [] (dropWhile isspace s) = splitTokens [] s"
  by (induction s) auto

lemma readToken_tokens:
  "tokensOf s = (case readToken s of None \<Rightarrow> [] | Some (token, rest) \<Rightarrow> token # tokensOf rest)"
proof -
  let ?s = "dropWhile isspace s"
  let ?t = "takeWhile (\<lambda>c. \<not> isspace c) ?s"
  let ?r = "dropWhile (\<lambda>c. \<not> isspace c) ?s"
  have t: "tokensOf s = splitTokens [] ?s"
    by (simp add: tokensOf_def splitTokens_skip)
  show ?thesis
  proof (cases "?t = []")
    case True
    have e: "?s = []"
    proof (cases ?s)
      case Nil
      then show ?thesis .
    next
      case (Cons c cs)
      then have "\<not> isspace c" using hd_dropWhile [of isspace s] by (metis list.sel(1) list.distinct(1))
      then show ?thesis using True Cons by simp
    qed
    have ts: "tokensOf s = []" unfolding t e by simp
    have "readToken s = None" using True by (simp add: readToken_def Let_def)
    then show ?thesis using ts by simp
  next
    case False
    have "splitTokens [] ?s = ?t # splitTokens [] ?r"
      using False by (subst splitTokens_run) simp
    then show ?thesis using False t by (simp add: readToken_def tokensOf_def Let_def)
  qed
qed

lemma parseLine_tokens:
  "parseLine line =
     (case tokensOf line of
        filePath # taxidStr # others \<Rightarrow> Some (filePath, taxidStr)
      | _ \<Rightarrow> None)"
proof (cases "readToken line")
  case None
  then show ?thesis using readToken_tokens [of line] by (simp add: parseLine_def)
next
  case (Some a)
  obtain filePath rest where a: "a = (filePath, rest)" by (cases a)
  show ?thesis
  proof (cases "readToken rest")
    case None
    then show ?thesis
      using Some a readToken_tokens [of line] readToken_tokens [of rest]
      by (simp add: parseLine_def)
  next
    case (Some b)
    obtain taxidStr rest' where b: "b = (taxidStr, rest')" by (cases b)
    show ?thesis
      using \<open>readToken line = Some a\<close> Some a b readToken_tokens [of line]
        readToken_tokens [of rest]
      by (simp add: parseLine_def)
  qed
qed

lemma getlines_line:
  "CHR 0x0A \<notin> set line \<Longrightarrow>
   getlines cur (line @ CHR 0x0A # s) = (cur @ line) # getlines [] s"
  by (induction line arbitrary: cur) auto

lemma getlines_last:
  "CHR 0x0A \<notin> set rest \<Longrightarrow>
   getlines cur rest = (if cur @ rest = [] then [] else [cur @ rest])"
  by (induction rest arbitrary: cur) auto

lemma getlines_joinLines:
  assumes "\<forall>line \<in> set ls. CHR 0x0A \<notin> set line" "CHR 0x0A \<notin> set rest"
  shows "getlines [] (joinLines ls @ rest) = ls @ (if rest = [] then [] else [rest])"
  using assms
proof (induction ls)
  case Nil
  then show ?case by (simp add: joinLines_def getlines_last)
next
  case (Cons line ls)
  have "getlines [] (joinLines (line # ls) @ rest) =
      getlines [] (line @ CHR 0x0A # (joinLines ls @ rest))"
    by (simp add: joinLines_def)
  also have "\<dots> = line # getlines [] (joinLines ls @ rest)"
    using Cons.prems getlines_line [of line "[]"] by simp
  finally show ?case using Cons by simp
qed


lemma parseStep_valid:
  assumes "2 \<le> length (tokensOf line)"
  shows "parseStep (inputFiles, hashCount, fileInfo) line =
      (map_default (tokensOf line ! 1) [tokensOf line ! 0] (\<lambda>files. files @ [tokensOf line ! 0])
         inputFiles,
       AList.update (tokensOf line ! 1) 0 hashCount,
       fileInfo\<lparr>fileNum := fileNum fileInfo + 1\<rparr>)"
proof -
  obtain filePath taxidStr others where t: "tokensOf line = filePath # taxidStr # others"
    using assms by (cases "tokensOf line" rule: list.exhaust [case_names Nil Cons])
      (auto simp: Suc_le_eq length_Suc_conv neq_Nil_conv)
  then have "parseLine line = Some (filePath, taxidStr)"
    by (simp add: parseLine_tokens)
  then show ?thesis using t by (simp add: parseStep_def)
qed

lemma parseStep_invalid:
  assumes "length (tokensOf line) < 2"
  shows "parseStep (inputFiles, hashCount, fileInfo) line =
      (inputFiles, hashCount, fileInfo\<lparr>invalidNum := invalidNum fileInfo + 1\<rparr>)"
proof -
  have "parseLine line = None"
    using assms by (cases "tokensOf line") (auto simp: parseLine_tokens split: list.splits)
  then show ?thesis by (simp add: parseStep_def)
qed

lemma foldl_parseStep_fileInfo:
  "snd (snd (foldl parseStep (inputFiles, hashCount, fileInfo) lines)) =
     fileInfo\<lparr>fileNum := fileNum fileInfo + length (filter (\<lambda>l. 2 \<le> length (tokensOf l)) lines),
              invalidNum := invalidNum fileInfo + length (filter (\<lambda>l. length (tokensOf l) < 2) lines)\<rparr>"
proof (induction lines arbitrary: inputFiles hashCount fileInfo)
  case Nil
  then show ?case by simp
next
  case (Cons l lines)
  show ?case
  proof (cases "2 \<le> length (tokensOf l)")
    case True
    then show ?thesis by (simp add: parseStep_valid Cons.IH)
  next
    case False
    then have "length (tokensOf l) < 2" by simp
    then show ?thesis by (simp add: parseStep_invalid Cons.IH)
  qed
qed

lemma foldl_parseStep_hashCount:
  "map_of (fst (snd (foldl parseStep (inputFiles, hashCount, fileInfo) lines))) t =
     (if t \<in> (\<lambda>l. tokensOf l ! 1) ` {l \<in> set lines. 2 \<le> length (tokensOf l)} then Some 0
      else map_of hashCount t)"
proof (induction lines arbitrary: inputFiles hashCount fileInfo)
  case Nil
  then show ?case by simp
next
  case (Cons l lines)
  show ?case
  proof (cases "2 \<le> length (tokensOf l)")
    case True
    then show ?thesis by (auto simp: parseStep_valid Cons.IH AList.update_conv')
  next
    case False
    then have "length (tokensOf l) < 2" by simp
    then show ?thesis by (auto simp: parseStep_invalid Cons.IH)
  qed
qed

lemma foldl_parseStep_inputFiles:
  "map_of (fst (foldl parseStep (inputFiles, hashCount, fileInfo) lines)) t =
     (if filter (\<lambda>l. 2 \<le> length (tokensOf l) \<and> tokensOf l ! 1 = t) lines = []
      then map_of inputFiles t
      else Some ((case map_of inputFiles t of None \<Rightarrow> [] | Some files \<Rightarrow> files) @
                 map (\<lambda>l. tokensOf l ! 0)
                   (filter (\<lambda>l. 2 \<le> length (tokensOf l) \<and> tokensOf l ! 1 = t) lines)))"
proof (induction lines arbitrary: inputFiles hashCount fileInfo)
  case Nil
  then show ?case by simp
next
  case (Cons l lines)
  show ?case
  proof (cases "2 \<le> length (tokensOf l)")
    case True
    then show ?thesis
      by (auto simp: parseStep_valid Cons.IH map_of_map_default split: option.splits)
  next
    case False
    then have "length (tokensOf l) < 2" by simp
    then show ?thesis using False by (simp add: parseStep_invalid Cons.IH)
  qed
qed

lemma foldl_parseStep_key_sets:
  "fst ` set (fst (foldl parseStep (inputFiles, hashCount, fileInfo) lines)) =
     fst ` set inputFiles \<union> (\<lambda>l. tokensOf l ! 1) ` {l \<in> set lines. 2 \<le> length (tokensOf l)}"
  "fst ` set (fst (snd (foldl parseStep (inputFiles, hashCount, fileInfo) lines))) =
     fst ` set hashCount \<union> (\<lambda>l. tokensOf l ! 1) ` {l \<in> set lines. 2 \<le> length (tokensOf l)}"
proof (induction lines arbitrary: inputFiles hashCount fileInfo)
  case Nil
  {
    case 1
    then show ?case by simp
  next
    case 2
    then show ?case by simp
  }
next
  case (Cons l lines)
  {
    case 1
    show ?case
    proof (cases "2 \<le> length (tokensOf l)")
      case True
      then show ?thesis by (auto simp: parseStep_valid Cons.IH(1) dom_map_default)
    next
      case False
      then have "length (tokensOf l) < 2" by simp
      then show ?thesis using False by (auto simp: parseStep_invalid Cons.IH(1))
    qed
  next
    case 2
    show ?case
    proof (cases "2 \<le> length (tokensOf l)")
      case True
      then show ?thesis by (auto simp: parseStep_valid Cons.IH(2) AList.dom_update)
    next
      case False
      then have "length (tokensOf l) < 2" by simp
      then show ?thesis using False by (auto simp: parseStep_invalid Cons.IH(2))
    qed
  }
qed


text \<open>Every text splits into newline-terminated lines and a last part without a newline.\<close>

lemma manifest_lines:
  "\<exists>ls rest. manifest = joinLines ls @ rest
     \<and> (\<forall>line \<in> set ls. CHR 0x0A \<notin> set line) \<and> CHR 0x0A \<notin> set rest"
proof (induction manifest)
  case Nil
  have "[] = joinLines [] @ []" by (simp add: joinLines_def)
  then show ?case by (metis empty_iff empty_set)
next
  case (Cons c s)
  then obtain ls rest where s: "s = joinLines ls @ rest"
    and l: "\<forall>line \<in> set ls. CHR 0x0A \<notin> set line" and r: "CHR 0x0A \<notin> set rest"
    by blast
  show ?case
  proof (cases "c = CHR 0x0A")
    case True
    have "c # s = joinLines ([] # ls) @ rest" using True s by (simp add: joinLines_def)
    moreover have "\<forall>line \<in> set ([] # ls). CHR 0x0A \<notin> set line" using l by simp
    ultimately show ?thesis using r by blast
  next
    case False
    show ?thesis
    proof (cases ls)
      case Nil
      have "c # s = joinLines [] @ (c # rest)" using Nil s by (simp add: joinLines_def)
      moreover have "CHR 0x0A \<notin> set (c # rest)" using False r by simp
      ultimately show ?thesis using l Nil by blast
    next
      case (Cons line ls')
      have "c # s = joinLines ((c # line) # ls') @ rest" using Cons s by (simp add: joinLines_def)
      moreover have "\<forall>line \<in> set ((c # line) # ls'). CHR 0x0A \<notin> set line"
        using l Cons False by simp
      ultimately show ?thesis using r by blast
    qed
  qed
qed


text \<open>
  Claim C9. Every manifest is a sequence of newline-terminated lines \<open>ls\<close> followed by a
  last part \<open>rest\<close> without a newline, which is one more line when it is not empty.
  \<^verbatim>\<open>parseInputFile\<close> runs its step on each of these lines, in order. A line with at least
  two whitespace-separated tokens (path, taxid, anything after them ignored) appends the
  path to \<^verbatim>\<open>inputFiles[taxid]\<close>, leaves \<^verbatim>\<open>hashCount[taxid]\<close> at \<open>0\<close>, increments
  \<^verbatim>\<open>fileNum\<close> and changes no other key and no other counter; a line with fewer tokens
  increments \<^verbatim>\<open>invalidNum\<close> and changes nothing else. So after parsing \<^verbatim>\<open>fileNum\<close> has grown
  by the number of valid lines and \<^verbatim>\<open>invalidNum\<close> by the number of the others, every
  taxid of a valid line has the count \<open>0\<close> and the paths of its lines appended in order,
  both maps have gained exactly the taxids of the valid lines as keys, and maps with equal
  key sets before (both are empty in \<^verbatim>\<open>run\<close>) have equal key sets after. A manifest that
  cannot be opened changes nothing.
\<close>

theorem parseInputFile_lines:
  assumes "\<forall>line \<in> set ls. CHR 0x0A \<notin> set line" and "CHR 0x0A \<notin> set rest"
    and "lines = ls @ (if rest = [] then [] else [rest])"
    and "taxids = (\<lambda>l. tokensOf l ! 1) ` {l \<in> set lines. 2 \<le> length (tokensOf l)}"
    and "parseInputFile (Some (joinLines ls @ rest)) (inputFiles, hashCount, fileInfo) =
           (inputFiles', hashCount', fileInfo')"
  shows "(inputFiles', hashCount', fileInfo') =
           foldl parseStep (inputFiles, hashCount, fileInfo) lines
     \<and> (2 \<le> length (tokensOf l) \<longrightarrow>
          map_of (fst (parseStep (inF, hc, fi) l)) (tokensOf l ! 1) =
            Some ((case map_of inF (tokensOf l ! 1) of None \<Rightarrow> [] | Some files \<Rightarrow> files)
                  @ [tokensOf l ! 0])
          \<and> (\<forall>t. t \<noteq> tokensOf l ! 1 \<longrightarrow> map_of (fst (parseStep (inF, hc, fi) l)) t = map_of inF t)
          \<and> map_of (fst (snd (parseStep (inF, hc, fi) l))) (tokensOf l ! 1) = Some 0
          \<and> (\<forall>t. t \<noteq> tokensOf l ! 1 \<longrightarrow>
                 map_of (fst (snd (parseStep (inF, hc, fi) l))) t = map_of hc t)
          \<and> snd (snd (parseStep (inF, hc, fi) l)) = fi\<lparr>fileNum := fileNum fi + 1\<rparr>)
     \<and> (length (tokensOf l) < 2 \<longrightarrow>
          parseStep (inF, hc, fi) l = (inF, hc, fi\<lparr>invalidNum := invalidNum fi + 1\<rparr>))
     \<and> fileInfo' =
          fileInfo\<lparr>fileNum := fileNum fileInfo + length (filter (\<lambda>l. 2 \<le> length (tokensOf l)) lines),
                   invalidNum :=
                     invalidNum fileInfo + length (filter (\<lambda>l. length (tokensOf l) < 2) lines)\<rparr>
     \<and> (\<forall>t. map_of hashCount' t = (if t \<in> taxids then Some 0 else map_of hashCount t))
     \<and> (\<forall>t. map_of inputFiles' t =
            (if filter (\<lambda>l. 2 \<le> length (tokensOf l) \<and> tokensOf l ! 1 = t) lines = []
             then map_of inputFiles t
             else Some ((case map_of inputFiles t of None \<Rightarrow> [] | Some files \<Rightarrow> files) @
                        map (\<lambda>l. tokensOf l ! 0)
                          (filter (\<lambda>l. 2 \<le> length (tokensOf l) \<and> tokensOf l ! 1 = t) lines))))
     \<and> fst ` set inputFiles' = fst ` set inputFiles \<union> taxids
     \<and> fst ` set hashCount' = fst ` set hashCount \<union> taxids
     \<and> (fst ` set hashCount = fst ` set inputFiles \<longrightarrow>
          fst ` set hashCount' = fst ` set inputFiles')
     \<and> parseInputFile None st = st"
proof -
  have fold: "(inputFiles', hashCount', fileInfo') =
      foldl parseStep (inputFiles, hashCount, fileInfo) lines"
    using assms(5) getlines_joinLines [OF assms(1) assms(2)] assms(3)
    by (simp add: parseInputFile_def)
  have c1: "inputFiles' = fst (foldl parseStep (inputFiles, hashCount, fileInfo) lines)"
    and c2: "hashCount' = fst (snd (foldl parseStep (inputFiles, hashCount, fileInfo) lines))"
    and c3: "fileInfo' = snd (snd (foldl parseStep (inputFiles, hashCount, fileInfo) lines))"
    using fold by (metis fst_conv snd_conv)+
  have valid: "2 \<le> length (tokensOf l) \<longrightarrow>
          map_of (fst (parseStep (inF, hc, fi) l)) (tokensOf l ! 1) =
            Some ((case map_of inF (tokensOf l ! 1) of None \<Rightarrow> [] | Some files \<Rightarrow> files)
                  @ [tokensOf l ! 0])
          \<and> (\<forall>t. t \<noteq> tokensOf l ! 1 \<longrightarrow> map_of (fst (parseStep (inF, hc, fi) l)) t = map_of inF t)
          \<and> map_of (fst (snd (parseStep (inF, hc, fi) l))) (tokensOf l ! 1) = Some 0
          \<and> (\<forall>t. t \<noteq> tokensOf l ! 1 \<longrightarrow>
                 map_of (fst (snd (parseStep (inF, hc, fi) l))) t = map_of hc t)
          \<and> snd (snd (parseStep (inF, hc, fi) l)) = fi\<lparr>fileNum := fileNum fi + 1\<rparr>"
    by (simp add: parseStep_valid map_of_map_default AList.update_conv' split: option.splits)
  have invalid: "length (tokensOf l) < 2 \<longrightarrow>
      parseStep (inF, hc, fi) l = (inF, hc, fi\<lparr>invalidNum := invalidNum fi + 1\<rparr>)"
    by (simp add: parseStep_invalid)
  have info: "fileInfo' =
          fileInfo\<lparr>fileNum := fileNum fileInfo + length (filter (\<lambda>l. 2 \<le> length (tokensOf l)) lines),
                   invalidNum :=
                     invalidNum fileInfo + length (filter (\<lambda>l. length (tokensOf l) < 2) lines)\<rparr>"
    unfolding c3 by (rule foldl_parseStep_fileInfo)
  have counts: "\<forall>t. map_of hashCount' t = (if t \<in> taxids then Some 0 else map_of hashCount t)"
    unfolding c2 assms(4) by (simp add: foldl_parseStep_hashCount)
  have files: "\<forall>t. map_of inputFiles' t =
            (if filter (\<lambda>l. 2 \<le> length (tokensOf l) \<and> tokensOf l ! 1 = t) lines = []
             then map_of inputFiles t
             else Some ((case map_of inputFiles t of None \<Rightarrow> [] | Some files \<Rightarrow> files) @
                        map (\<lambda>l. tokensOf l ! 0)
                          (filter (\<lambda>l. 2 \<le> length (tokensOf l) \<and> tokensOf l ! 1 = t) lines)))"
    unfolding c1 using foldl_parseStep_inputFiles by blast
  have k1: "fst ` set inputFiles' = fst ` set inputFiles \<union> taxids"
    unfolding c1 assms(4) by (rule foldl_parseStep_key_sets(1))
  have k2: "fst ` set hashCount' = fst ` set hashCount \<union> taxids"
    unfolding c2 assms(4) by (rule foldl_parseStep_key_sets(2))
  have k3: "fst ` set hashCount = fst ` set inputFiles \<longrightarrow>
      fst ` set hashCount' = fst ` set inputFiles'"
    using k1 k2 by simp
  have none: "parseInputFile None st = st"
    by (simp add: parseInputFile_def)
  show ?thesis
    using fold valid invalid info counts files k1 k2 k3 none by blast
qed

lemma parse_examples:
  "parseInputFile
     (Some (joinLines [[CHR ''A'', CHR ''.'', CHR ''f'', CHR ''a'', CHR 0x09, CHR ''1''], ''B.fa'', []]
            @ ''C  2 x''))
     ([], [], \<lparr>fileNum = 0, invalidNum = 0, sequenceNum = 0, skippedNum = 0, bpLength = 0\<rparr>) =
     ([(''1'', [''A.fa'']), (''2'', [''C''])], [(''1'', 0), (''2'', 0)],
      \<lparr>fileNum = 2, invalidNum = 2, sequenceNum = 0, skippedNum = 0, bpLength = 0\<rparr>)"
  "tokensOf [CHR ''A'', CHR ''.'', CHR ''f'', CHR ''a'', CHR 0x09, CHR ''1''] = [''A.fa'', ''1'']"
  "tokensOf ''B.fa'' = [''B.fa'']"
  "tokensOf [] = []"
  "tokensOf ''C  2 x'' = [''C'', ''2'', ''x'']"
  by code_simp+

theorem parseInputFile_lines_witness:
  "CHR 0x0A \<notin> set [CHR ''A'', CHR ''.'', CHR ''f'', CHR ''a'', CHR 0x09, CHR ''1'']
   \<and> CHR 0x0A \<notin> set ''B.fa''
   \<and> CHR 0x0A \<notin> set ''C  2 x''
   \<and> parseInputFile
       (Some (joinLines [[CHR ''A'', CHR ''.'', CHR ''f'', CHR ''a'', CHR 0x09, CHR ''1''], ''B.fa'', []]
              @ ''C  2 x''))
       ([], [], \<lparr>fileNum = 0, invalidNum = 0, sequenceNum = 0, skippedNum = 0, bpLength = 0\<rparr>) =
       ([(''1'', [''A.fa'']), (''2'', [''C''])], [(''1'', 0), (''2'', 0)],
        \<lparr>fileNum = 2, invalidNum = 2, sequenceNum = 0, skippedNum = 0, bpLength = 0\<rparr>)
   \<and> ([(''1'', [''A.fa'']), (''2'', [''C''])], [(''1'', 0), (''2'', 0)],
        \<lparr>fileNum = 2, invalidNum = 2, sequenceNum = 0, skippedNum = 0, bpLength = 0\<rparr>) =
       foldl parseStep
         ([], [], \<lparr>fileNum = 0, invalidNum = 0, sequenceNum = 0, skippedNum = 0, bpLength = 0\<rparr>)
         [[CHR ''A'', CHR ''.'', CHR ''f'', CHR ''a'', CHR 0x09, CHR ''1''], ''B.fa'', [], ''C  2 x'']
   \<and> 2 \<le> length (tokensOf ''C  2 x'')
   \<and> map_of (fst (parseStep ([(''2'', [''Z.fa''])], [(''2'', 5)],
         \<lparr>fileNum = 1, invalidNum = 0, sequenceNum = 0, skippedNum = 0, bpLength = 0\<rparr>) ''C  2 x'')) ''2'' =
       Some [''Z.fa'', ''C'']
   \<and> map_of (fst (snd (parseStep ([(''2'', [''Z.fa''])], [(''2'', 5)],
         \<lparr>fileNum = 1, invalidNum = 0, sequenceNum = 0, skippedNum = 0, bpLength = 0\<rparr>) ''C  2 x''))) ''2'' =
       Some 0
   \<and> length (tokensOf ''B.fa'') < 2
   \<and> parseStep ([(''2'', [''Z.fa''])], [(''2'', 5)],
         \<lparr>fileNum = 1, invalidNum = 0, sequenceNum = 0, skippedNum = 0, bpLength = 0\<rparr>) ''B.fa'' =
       ([(''2'', [''Z.fa''])], [(''2'', 5)],
         \<lparr>fileNum = 1, invalidNum = 1, sequenceNum = 0, skippedNum = 0, bpLength = 0\<rparr>)
   \<and> fst ` set [(''1'', 0 :: u64), (''2'', 0)] = fst ` set [(''1'', [''A.fa'']), (''2'', [''C''])]"
proof -
  have h1: "\<forall>line \<in> set [[CHR ''A'', CHR ''.'', CHR ''f'', CHR ''a'', CHR 0x09, CHR ''1''], ''B.fa'', []].
      CHR 0x0A \<notin> set line"
    by simp
  have h2: "CHR 0x0A \<notin> set ''C  2 x''" by simp
  note t = parseInputFile_lines [OF h1 h2 refl refl parse_examples(1),
      where inF = "[(''2'', [''Z.fa''])]" and hc = "[(''2'', 5)]"
        and fi = "\<lparr>fileNum = 1, invalidNum = 0, sequenceNum = 0, skippedNum = 0, bpLength = 0\<rparr>"]
  show ?thesis
    using h1 h2 parse_examples t [of "''C  2 x''"] t [of "''B.fa''"]
    by simp
qed

section \<open>The minimizer counter\<close>

lemma fold_insert_set: "set (fold List.insert xs ys) = set xs \<union> set ys"
  by (induction xs arbitrary: ys) auto

lemma fold_insert_distinct: "distinct ys \<Longrightarrow> distinct (fold List.insert xs ys)"
  by (induction xs arbitrary: ys) auto

lemma recordHashes_simps:
  "recordHashes config [] = {}"
  "recordHashes config (r # fin) =
     (if fst r < min_length config then {} else set (snd r)) \<union> recordHashes config fin"
  by (auto simp: recordHashes_def)

lemma readRecords_hashes:
  "set (snd (readRecords config fin (info, hashes))) = set hashes \<union> recordHashes config fin"
proof (induction fin arbitrary: info hashes)
  case Nil
  then show ?case by (simp add: recordHashes_simps)
next
  case (Cons r fin)
  obtain len minihash where r: "r = (len, minihash)" by (cases r)
  show ?case
    unfolding r by (auto simp: Cons.IH recordHashes_simps fold_insert_set)
qed

lemma readRecords_distinct:
  "distinct hashes \<Longrightarrow> distinct (snd (readRecords config fin (info, hashes)))"
  by (induction fin arbitrary: info hashes) (auto simp: fold_insert_distinct)

lemma readRecords_card:
  "length (snd (readRecords config fin (info, []))) = card (recordHashes config fin)"
proof -
  have "distinct (snd (readRecords config fin (info, [])))"
    by (rule readRecords_distinct) simp
  then have "length (snd (readRecords config fin (info, []))) =
      card (set (snd (readRecords config fin (info, []))))"
    by (simp add: distinct_card)
  then show ?thesis by (simp add: readRecords_hashes)
qed

lemma countOf_map_default:
  "countOf (map_default k c (\<lambda>x. x + c) hc) t = countOf hc t + (if t = k then c else 0)"
  by (simp add: countOf_def map_of_map_default split: option.splits)

lemma countLoop_counts:
  assumes "countLoop config env pairs (thc, info, tmp) = Inr (thc', info', tmp')"
  shows "countOf thc' t =
           countOf thc t +
           (\<Sum>p\<leftarrow>filter (\<lambda>p. fst p = t) pairs. of_nat (card (fileHashSet config env (snd p))))"
  using assms
proof (induction pairs arbitrary: thc info tmp)
  case Nil
  then show ?case by simp
next
  case (Cons p pairs)
  obtain taxid path where p: "p = (taxid, path)" by (cases p)
  from Cons.prems p obtain fin where fin: "sequenceFiles env path = Some fin"
    by (auto split: option.splits)
  obtain info1 hashes where rr: "readRecords config fin (info, []) = (info1, hashes)"
    by (cases "readRecords config fin (info, [])")
  have len: "length hashes = card (fileHashSet config env path)"
    using readRecords_card [of config fin info] rr fin by (simp add: fileHashSet_def)
  let ?thc1 = "map_default taxid (of_nat (length hashes)) (\<lambda>c. c + of_nat (length hashes)) thc"
  from Cons.prems p fin rr obtain tmp1 where
    rest: "countLoop config env pairs (?thc1, info1, tmp1) = Inr (thc', info', tmp')"
    by (auto simp: Let_def)
  have "countOf thc' t = countOf ?thc1 t +
      (\<Sum>p\<leftarrow>filter (\<lambda>p. fst p = t) pairs. of_nat (card (fileHashSet config env (snd p))))"
    by (rule Cons.IH [OF rest])
  then show ?case
    using len p by (simp add: countOf_map_default)
qed

lemma mergeCounts_counts:
  "countOf (mergeCounts hc thc) t =
     countOf hc t + (\<Sum>p\<leftarrow>filter (\<lambda>p. fst p = t) thc. snd p)"
  unfolding mergeCounts_def
proof (induction thc arbitrary: hc)
  case Nil
  then show ?case by simp
next
  case (Cons p thc)
  obtain k c where p: "p = (k, c)" by (cases p)
  show ?case
    using Cons.IH [of "map_default k c (\<lambda>x. x + c) hc"] p
    by (simp add: countOf_map_default)
qed

lemma distinct_keys_sum:
  assumes "distinct (map fst thc)"
  shows "(\<Sum>p\<leftarrow>filter (\<lambda>p. fst p = t) thc. snd p) = countOf thc t"
  using assms
proof (induction thc)
  case Nil
  then show ?case by (simp add: countOf_def)
next
  case (Cons p thc)
  show ?case
  proof (cases "fst p = t")
    case True
    then have "t \<notin> fst ` set thc" using Cons.prems by auto
    then have "filter (\<lambda>p. fst p = t) thc = []" by (auto simp: filter_empty_conv)
    then show ?thesis using True by (cases p) (simp add: countOf_def)
  next
    case False
    then show ?thesis using Cons by (cases p) (auto simp: countOf_def)
  qed
qed

lemma countLoop_distinct:
  assumes "countLoop config env pairs (thc, info, tmp) = Inr (thc', info', tmp')"
    and "distinct (map fst thc)"
  shows "distinct (map fst thc')"
  using assms
proof (induction pairs arbitrary: thc info tmp)
  case Nil
  then show ?case by simp
next
  case (Cons p pairs)
  obtain taxid path where p: "p = (taxid, path)" by (cases p)
  from Cons.prems(1) p obtain fin where fin: "sequenceFiles env path = Some fin"
    by (auto split: option.splits)
  obtain info1 hashes where rr: "readRecords config fin (info, []) = (info1, hashes)"
    by (cases "readRecords config fin (info, [])")
  let ?thc1 = "map_default taxid (of_nat (length hashes)) (\<lambda>c. c + of_nat (length hashes)) thc"
  from Cons.prems(1) p fin rr obtain tmp1 where
    rest: "countLoop config env pairs (?thc1, info1, tmp1) = Inr (thc', info', tmp')"
    by (auto simp: Let_def)
  show ?case
    by (rule Cons.IH [OF rest]) (simp add: distinct_map_default Cons.prems(2))
qed

lemma taxidFilePairs_sum:
  "(\<Sum>p\<leftarrow>filter (\<lambda>p. fst p = t) (taxidFilePairs inputFiles). f (snd p)) =
   (\<Sum>file\<leftarrow>filesOf inputFiles t. f file)"
  unfolding taxidFilePairs_def filesOf_def
proof (induction inputFiles)
  case Nil
  then show ?case by simp
next
  case (Cons e inputFiles)
  obtain k files where e: "e = (k, files)" by (cases e)
  have "filter (\<lambda>p. fst p = t) (map (\<lambda>file. (k, file)) files) =
      (if k = t then map (\<lambda>file. (k, file)) files else [])"
    by (induction files) auto
  then show ?case using Cons e by (simp add: comp_def)
qed

text \<open>
  Claim C5, amended. When \<^verbatim>\<open>minimiser_count\<close> returns, the count of every taxid has grown
  by the sum, over the files listed under the taxid, of the number of distinct minimizer
  hashes of that file (in 64-bit arithmetic); after the parser the count starts at \<open>0\<close>, so
  it is that sum. A hash that occurs in several files of the taxid is counted once for
  each of them.
\<close>

theorem minimiser_count_sums_per_file:
  assumes "minimiser_count config env inputFiles (hashCount, fileInfo, tmp) =
             Inr (hashCount', fileInfo', tmp')"
  shows "countOf hashCount' t =
           countOf hashCount t +
           (\<Sum>file\<leftarrow>filesOf inputFiles t. of_nat (card (fileHashSet config env file)))"
proof -
  let ?zero = "\<lparr>fileNum = 0, invalidNum = 0, sequenceNum = 0, skippedNum = 0, bpLength = 0\<rparr>"
  from assms obtain thc info where
    loop: "countLoop config env (taxidFilePairs inputFiles) ([], ?zero, tmp) = Inr (thc, info, tmp')"
    and merged: "hashCount' = mergeCounts hashCount thc"
    by (auto simp: minimiser_count_def split: sum.splits)
  have "distinct (map fst thc)"
    using countLoop_distinct [OF loop] by simp
  then have "countOf hashCount' t = countOf hashCount t + countOf thc t"
    using merged by (simp add: mergeCounts_counts distinct_keys_sum)
  moreover have "countOf thc t =
      (\<Sum>p\<leftarrow>filter (\<lambda>p. fst p = t) (taxidFilePairs inputFiles).
          of_nat (card (fileHashSet config env (snd p))))"
    using countLoop_counts [OF loop, of t] by (simp add: countOf_def)
  ultimately show ?thesis
    by (simp add: taxidFilePairs_sum [where f = "\<lambda>file. of_nat (card (fileHashSet config env file))"])
qed


lemma minimiser_count_example:
  "minimiser_count \<lparr>min_length = 60\<rparr>
     \<lparr>sequenceFiles = [''A.fa'' \<mapsto> [(100, [7, 7, 9])], ''B.fa'' \<mapsto> [(100, [9, 7]), (5, [1])]],
      scratchOpens = (\<lambda>taxid. True)\<rparr>
     [(''t1'', [''A.fa'', ''B.fa''])]
     ([(''t1'', 0)],
      \<lparr>fileNum = 2, invalidNum = 0, sequenceNum = 0, skippedNum = 0, bpLength = 0\<rparr>,
      Map.empty) =
   Inr ([(''t1'', 4)],
        \<lparr>fileNum = 2, invalidNum = 0, sequenceNum = 2, skippedNum = 1, bpLength = 200\<rparr>,
        [''t1'' \<mapsto> [9, 7, 7, 9]])"
  by (simp add: minimiser_count_def taxidFilePairs_def mergeCounts_def)

lemma fileHashSet_example:
  "fileHashSet \<lparr>min_length = 60\<rparr>
     \<lparr>sequenceFiles = [''A.fa'' \<mapsto> [(100, [7, 7, 9])], ''B.fa'' \<mapsto> [(100, [9, 7]), (5, [1])]],
      scratchOpens = (\<lambda>taxid. True)\<rparr> ''A.fa'' = {7, 9}"
  "fileHashSet \<lparr>min_length = 60\<rparr>
     \<lparr>sequenceFiles = [''A.fa'' \<mapsto> [(100, [7, 7, 9])], ''B.fa'' \<mapsto> [(100, [9, 7]), (5, [1])]],
      scratchOpens = (\<lambda>taxid. True)\<rparr> ''B.fa'' = {7, 9}"
  by (auto simp: fileHashSet_def recordHashes_def)

text \<open>
  Claim C5, as stated, fails: a taxid with two files that both hold the hashes \<open>7\<close> and
  \<open>9\<close> gets the count \<open>4\<close>, while the union of the two files' hash sets has \<open>2\<close> elements.
\<close>

theorem minimiser_count_distinct_counterexample:
  "minimiser_count \<lparr>min_length = 60\<rparr>
     \<lparr>sequenceFiles = [''A.fa'' \<mapsto> [(100, [7, 7, 9])], ''B.fa'' \<mapsto> [(100, [9, 7]), (5, [1])]],
      scratchOpens = (\<lambda>taxid. True)\<rparr>
     [(''t1'', [''A.fa'', ''B.fa''])]
     ([(''t1'', 0)],
      \<lparr>fileNum = 2, invalidNum = 0, sequenceNum = 0, skippedNum = 0, bpLength = 0\<rparr>,
      Map.empty) =
   Inr ([(''t1'', 4)],
        \<lparr>fileNum = 2, invalidNum = 0, sequenceNum = 2, skippedNum = 1, bpLength = 200\<rparr>,
        [''t1'' \<mapsto> [9, 7, 7, 9]])
   \<and> card (fileHashSet \<lparr>min_length = 60\<rparr>
     \<lparr>sequenceFiles = [''A.fa'' \<mapsto> [(100, [7, 7, 9])], ''B.fa'' \<mapsto> [(100, [9, 7]), (5, [1])]],
      scratchOpens = (\<lambda>taxid. True)\<rparr> ''A.fa''
     \<union> fileHashSet \<lparr>min_length = 60\<rparr>
     \<lparr>sequenceFiles = [''A.fa'' \<mapsto> [(100, [7, 7, 9])], ''B.fa'' \<mapsto> [(100, [9, 7]), (5, [1])]],
      scratchOpens = (\<lambda>taxid. True)\<rparr> ''B.fa'') = 2"
  by (simp add: minimiser_count_example fileHashSet_example)

theorem minimiser_count_sums_per_file_witness:
  "minimiser_count \<lparr>min_length = 60\<rparr>
     \<lparr>sequenceFiles = [''A.fa'' \<mapsto> [(100, [7, 7, 9])], ''B.fa'' \<mapsto> [(100, [9, 7]), (5, [1])]],
      scratchOpens = (\<lambda>taxid. True)\<rparr>
     [(''t1'', [''A.fa'', ''B.fa''])]
     ([(''t1'', 0)],
      \<lparr>fileNum = 2, invalidNum = 0, sequenceNum = 0, skippedNum = 0, bpLength = 0\<rparr>,
      Map.empty) =
   Inr ([(''t1'', 4)],
        \<lparr>fileNum = 2, invalidNum = 0, sequenceNum = 2, skippedNum = 1, bpLength = 200\<rparr>,
        [''t1'' \<mapsto> [9, 7, 7, 9]])
   \<and> countOf [(''t1'', 4)] ''t1'' =
       countOf [(''t1'', 0)] ''t1'' +
       (\<Sum>file\<leftarrow>filesOf [(''t1'', [''A.fa'', ''B.fa''])] ''t1''.
          of_nat (card (fileHashSet \<lparr>min_length = 60\<rparr>
            \<lparr>sequenceFiles = [''A.fa'' \<mapsto> [(100, [7, 7, 9])], ''B.fa'' \<mapsto> [(100, [9, 7]), (5, [1])]],
             scratchOpens = (\<lambda>taxid. True)\<rparr> file)))"
  by (rule conjI [OF minimiser_count_example
        minimiser_count_sums_per_file [OF minimiser_count_example]])


section \<open>The search of the filter sizer\<close>

lemma midpoint_facts:
  fixes lo hi :: u64
  assumes "1 \<le> unat lo" "unat lo \<le> unat hi" "unat hi < 2 ^ 63"
  shows "unat ((lo + hi) div 2) = (unat lo + unat hi) div 2"
    and "unat ((lo + hi) div 2 + 1) = (unat lo + unat hi) div 2 + 1"
    and "unat ((lo + hi) div 2 - 1) = (unat lo + unat hi) div 2 - 1"
    and "(lo + hi) div 2 \<noteq> 0"
proof -
  have "unat lo + unat hi < 2 ^ LENGTH(64)" using assms by simp
  then have sum: "unat (lo + hi) = unat lo + unat hi"
    using unat_add_lem [of lo hi] by simp
  show mid: "unat ((lo + hi) div 2) = (unat lo + unat hi) div 2"
    by (simp add: unat_div sum)
  have "unat ((lo + hi) div 2) + unat (1 :: u64) < 2 ^ LENGTH(64)"
    using mid assms by simp
  then show "unat ((lo + hi) div 2 + 1) = (unat lo + unat hi) div 2 + 1"
    using unat_add_lem [of "(lo + hi) div 2" 1] mid by simp
  have pos: "1 \<le> unat ((lo + hi) div 2)" using mid assms by simp
  then have "(1 :: u64) \<le> (lo + hi) div 2" by (simp add: word_le_nat_alt)
  then show "unat ((lo + hi) div 2 - 1) = (unat lo + unat hi) div 2 - 1"
    using mid by (simp add: unat_sub)
  show "(lo + hi) div 2 \<noteq> 0" using pos by auto
qed

lemma probeLoad_nonzero:
  "binSize \<noteq> 0 \<Longrightarrow> \<exists>binNum. binNumOf hc binSize = Inr binNum
      \<and> probeLoad hc totalSize binSize = dbl_div totalSize (binNum * binSize)"
  by (simp add: binNumOf_def probeLoad_def)

lemma sizeSearch_result:
  fixes lo hi :: u64
  assumes "1 \<le> unat lo" "unat lo \<le> unat hi + 1" "unat hi < 2 ^ 63"
  shows "\<exists>bs bn. sizeSearch hc L T lo hi bestS bestN = Some (Inr (bs, bn)) \<and>
     (bs = bestS \<and> bn = bestN \<and> (unat lo = unat hi + 1 \<or> dbl_gt (probeLoad hc T hi) L)
      \<or> unat lo \<le> unat bs \<and> unat bs \<le> unat hi \<and> binNumOf hc bs = Inr bn
        \<and> \<not> dbl_gt (probeLoad hc T bs) L
        \<and> (dbl_eq (probeLoad hc T bs) L \<or> bs = lo \<or> dbl_gt (probeLoad hc T (bs - 1)) L))"
  using assms
proof (induction "unat hi + 1 - unat lo" arbitrary: lo hi bestS bestN rule: less_induct)
  case less
  show ?case
  proof (cases "lo \<le> hi")
    case False
    then have "unat lo = unat hi + 1"
      using less.prems by (simp add: word_le_nat_alt)
    moreover have "sizeSearch hc L T lo hi bestS bestN = Some (Inr (bestS, bestN))"
      using False by (subst sizeSearch.simps) simp
    ultimately show ?thesis by simp
  next
    case True
    then have le: "unat lo \<le> unat hi" by (simp add: word_le_nat_alt)
    let ?mid = "(lo + hi) div 2"
    note mf = midpoint_facts [OF less.prems(1) le less.prems(3)]
    obtain n where n: "binNumOf hc ?mid = Inr n"
      and pl: "probeLoad hc T ?mid = dbl_div T (n * ?mid)"
      using probeLoad_nonzero [OF mf(4)] by blast
    have lo_mid: "unat lo \<le> unat ?mid" and mid_hi: "unat ?mid \<le> unat hi"
      using mf(1) le by simp_all
    consider (small) "dbl_gt (probeLoad hc T ?mid) L"
      | (exact) "\<not> dbl_gt (probeLoad hc T ?mid) L" "dbl_eq (probeLoad hc T ?mid) L"
      | (large) "\<not> dbl_gt (probeLoad hc T ?mid) L" "\<not> dbl_eq (probeLoad hc T ?mid) L"
      by blast
    then show ?thesis
    proof cases
      case small
      have unf: "sizeSearch hc L T lo hi bestS bestN = sizeSearch hc L T (?mid + 1) hi bestS bestN"
        using True n pl small by (subst sizeSearch.simps) (simp add: Let_def)
      have m: "unat hi + 1 - unat (?mid + 1) < unat hi + 1 - unat lo"
        using mf(2) mf(1) le by simp
      have p1: "1 \<le> unat (?mid + 1)" using mf(2) by simp
      have p2: "unat (?mid + 1) \<le> unat hi + 1" using mf(2) mf(1) le by simp
      from less.hyps [OF m p1 p2 less.prems(3), of bestS bestN]
      obtain bs bn where r: "sizeSearch hc L T (?mid + 1) hi bestS bestN = Some (Inr (bs, bn))"
        and d: "bs = bestS \<and> bn = bestN \<and> (unat (?mid + 1) = unat hi + 1 \<or> dbl_gt (probeLoad hc T hi) L)
          \<or> unat (?mid + 1) \<le> unat bs \<and> unat bs \<le> unat hi \<and> binNumOf hc bs = Inr bn
            \<and> \<not> dbl_gt (probeLoad hc T bs) L
            \<and> (dbl_eq (probeLoad hc T bs) L \<or> bs = ?mid + 1 \<or> dbl_gt (probeLoad hc T (bs - 1)) L)"
        by blast
      from d show ?thesis
      proof
        assume a: "bs = bestS \<and> bn = bestN \<and> (unat (?mid + 1) = unat hi + 1 \<or> dbl_gt (probeLoad hc T hi) L)"
        have "dbl_gt (probeLoad hc T hi) L"
        proof (cases "unat (?mid + 1) = unat hi + 1")
          case True
          then have "unat ?mid = unat hi" using mf(2) mf(1) by simp
          then have "?mid = hi" by (simp add: word_unat_eq_iff)
          then show ?thesis using small by simp
        next
          case False
          then show ?thesis using a by blast
        qed
        then show ?thesis using unf r a by simp
      next
        assume b: "unat (?mid + 1) \<le> unat bs \<and> unat bs \<le> unat hi \<and> binNumOf hc bs = Inr bn
            \<and> \<not> dbl_gt (probeLoad hc T bs) L
            \<and> (dbl_eq (probeLoad hc T bs) L \<or> bs = ?mid + 1 \<or> dbl_gt (probeLoad hc T (bs - 1)) L)"
        have "bs = ?mid + 1 \<Longrightarrow> dbl_gt (probeLoad hc T (bs - 1)) L"
          using small by simp
        moreover have "unat lo \<le> unat bs" using b mf(2) lo_mid mf(1) by simp
        ultimately show ?thesis using unf r b by auto
      qed
    next
      case exact
      have "sizeSearch hc L T lo hi bestS bestN = Some (Inr (?mid, n))"
        using True n pl exact by (subst sizeSearch.simps) (simp add: Let_def)
      then show ?thesis using lo_mid mid_hi n exact by simp
    next
      case large
      have unf: "sizeSearch hc L T lo hi bestS bestN = sizeSearch hc L T lo (?mid - 1) ?mid n"
        using True n pl large by (subst sizeSearch.simps) (simp add: Let_def)
      have m: "unat (?mid - 1) + 1 - unat lo < unat hi + 1 - unat lo"
        using mf(3) mf(1) le less.prems(1) by simp
      have p2: "unat lo \<le> unat (?mid - 1) + 1" using mf(3) mf(1) le less.prems(1) by simp
      have p3: "unat (?mid - 1) < 2 ^ 63" using mf(3) mf(1) le less.prems(3) by simp
      from less.hyps [OF m less.prems(1) p2 p3, of ?mid n]
      obtain bs bn where r: "sizeSearch hc L T lo (?mid - 1) ?mid n = Some (Inr (bs, bn))"
        and d: "bs = ?mid \<and> bn = n \<and> (unat lo = unat (?mid - 1) + 1 \<or> dbl_gt (probeLoad hc T (?mid - 1)) L)
          \<or> unat lo \<le> unat bs \<and> unat bs \<le> unat (?mid - 1) \<and> binNumOf hc bs = Inr bn
            \<and> \<not> dbl_gt (probeLoad hc T bs) L
            \<and> (dbl_eq (probeLoad hc T bs) L \<or> bs = lo \<or> dbl_gt (probeLoad hc T (bs - 1)) L)"
        by blast
      from d show ?thesis
      proof
        assume a: "bs = ?mid \<and> bn = n \<and> (unat lo = unat (?mid - 1) + 1 \<or> dbl_gt (probeLoad hc T (?mid - 1)) L)"
        have "bs = lo \<or> dbl_gt (probeLoad hc T (bs - 1)) L"
        proof (cases "unat lo = unat (?mid - 1) + 1")
          case True
          then have "unat lo = unat ?mid" using mf(3) mf(1) le less.prems(1) by simp
          then have "lo = ?mid" by (simp add: word_unat_eq_iff)
          then show ?thesis using a by simp
        next
          case False
          then show ?thesis using a by blast
        qed
        then show ?thesis using unf r a lo_mid mid_hi n large by auto
      next
        assume b: "unat lo \<le> unat bs \<and> unat bs \<le> unat (?mid - 1) \<and> binNumOf hc bs = Inr bn
            \<and> \<not> dbl_gt (probeLoad hc T bs) L
            \<and> (dbl_eq (probeLoad hc T bs) L \<or> bs = lo \<or> dbl_gt (probeLoad hc T (bs - 1)) L)"
        from b have "unat bs \<le> unat (?mid - 1)" by blast
        then have "unat bs \<le> unat hi" using mf(3) mid_hi mf(1) by linarith
        then show ?thesis using unf r b by auto
      qed
    qed
  qed
qed


section \<open>The loads of the search against the quantities of the specification\<close>

lemma bitLength_le: "n < 2 ^ k \<Longrightarrow> bitLength n \<le> k"
proof (induction k arbitrary: n)
  case 0
  then show ?case by (simp add: bitLength.simps)
next
  case (Suc k)
  show ?case
  proof (cases "n = 0")
    case True
    then show ?thesis by (simp add: bitLength.simps)
  next
    case False
    have "n div 2 < 2 ^ k" using Suc.prems by simp
    then have "bitLength (n div 2) \<le> k" by (rule Suc.IH)
    then show ?thesis using False by (subst bitLength.simps) simp
  qed
qed

lemma bitLength_one: "bitLength (Suc 0) = Suc 0"
  by (simp add: bitLength.simps)

lemma ilog2_nat_le:
  assumes "n < 2 ^ 53"
  shows "ilog2 (rat_of_nat n) \<le> 52"
proof -
  have q: "quotient_of (rat_of_nat n) = (int n, 1)"
    using quotient_of_rat_of_int [of "int n"] by simp
  have "bitLength n \<le> 53" using assms by (rule bitLength_le)
  then show ?thesis
    by (auto simp: ilog2_def q bitLength_one Let_def)
qed

lemma roundToDouble_nat:
  assumes "n < 2 ^ 53"
  shows "roundToDouble (rat_of_nat n) = rat_of_nat n"
proof (cases "n = 0")
  case True
  then show ?thesis by (simp add: roundToDouble_def)
next
  case False
  define e where "e = ilog2 (rat_of_nat n) - 52"
  have e: "e \<le> 0" using ilog2_nat_le [OF assms] by (simp add: e_def)
  define k where "k = nat (- e)"
  have p: "pow2 e = 1 / 2 ^ k"
    using e by (cases "e = 0") (simp_all add: pow2_def k_def)
  have y: "rat_of_nat n / pow2 e = rat_of_int (int (n * 2 ^ k))"
    by (simp add: p)
  have pos: "\<not> rat_of_nat n \<le> 0" using False by simp
  show ?thesis
    unfolding roundToDouble_def Let_def e_def [symmetric]
    using pos by (simp only: y if_False floor_of_int) (simp add: p)
qed

lemma doubleOfU64_exact: "unat n < 2 ^ 53 \<Longrightarrow> doubleOfU64 n = rat_of_nat (unat n)"
  unfolding doubleOfU64_def by (rule roundToDouble_nat)

lemma ceilDiv_eq:
  assumes "0 < b"
  shows "ceilDiv c b = (c + b - 1) div b"
proof -
  let ?q = "(c + b - 1) div b"
  have lo: "?q * b \<le> c + b - 1" by simp
  have hi: "c + b - 1 < (?q + 1) * b"
    using assms by (metis Suc_eq_plus1 dividend_less_div_times mult.commute mult_Suc_right add.commute)
  have a1: "rat_of_int (int ?q) - 1 < rat_of_nat c / rat_of_nat b"
  proof -
    have "?q * b < c + b" using lo assms by linarith
    then have "rat_of_nat (?q * b) < rat_of_nat (c + b)" by (simp only: of_nat_less_iff)
    then have "(rat_of_nat ?q - 1) * rat_of_nat b < rat_of_nat c"
      by (simp add: algebra_simps)
    then show ?thesis using assms by (simp add: pos_less_divide_eq)
  qed
  have a2: "rat_of_nat c / rat_of_nat b \<le> rat_of_int (int ?q)"
  proof -
    have "c \<le> ?q * b" using hi assms by simp
    then have "rat_of_nat c \<le> rat_of_nat (?q * b)" by (simp only: of_nat_le_iff)
    then show ?thesis using assms by (simp add: pos_divide_le_eq)
  qed
  have "\<lceil>rat_of_nat c / rat_of_nat b\<rceil> = int ?q"
    using a1 a2 by (rule ceiling_unique)
  then show ?thesis by (simp add: ceilDiv_def)
qed

lemma unat_foldl_sum:
  fixes f :: "'b \<Rightarrow> u64"
  shows "unat acc + sum_list (map (\<lambda>kv. unat (f kv)) hc) < 2 ^ 64 \<Longrightarrow>
   unat (foldl (\<lambda>a kv. a + f kv) acc hc) = unat acc + sum_list (map (\<lambda>kv. unat (f kv)) hc)"
proof (induction hc arbitrary: acc)
  case Nil
  then show ?case by simp
next
  case (Cons kv hc)
  have "unat acc + unat (f kv) < 2 ^ LENGTH(64)" using Cons.prems by simp
  then have s: "unat (acc + f kv) = unat acc + unat (f kv)"
    using unat_add_lem [of acc "f kv"] by simp
  have "unat (acc + f kv) + sum_list (map (\<lambda>kv. unat (f kv)) hc) < 2 ^ 64"
    using Cons.prems s by simp
  from Cons.IH [OF this] show ?case using s by simp
qed

lemma sum_list_bounded:
  "\<forall>x \<in> set xs. f x \<le> (B :: nat) \<Longrightarrow> sum_list (map f xs) \<le> length xs * B"
  by (induction xs) auto

lemma foldl_max_ge:
  fixes a :: u64
  shows "a \<le> foldl (\<lambda>m kv. if snd kv > m then snd kv else m) a hc"
proof (induction hc arbitrary: a)
  case Nil
  show ?case by simp
next
  case (Cons kv hc)
  have "a \<le> (if snd kv > a then snd kv else a)" by (simp add: less_imp_le)
  also have "\<dots> \<le> foldl (\<lambda>m kv. if snd kv > m then snd kv else m)
      (if snd kv > a then snd kv else a) hc"
    by (rule Cons.IH)
  finally show ?case by simp
qed

lemma foldl_max_bound:
  fixes a :: u64
  shows "kv \<in> set hc \<Longrightarrow> snd kv \<le> foldl (\<lambda>m kv. if snd kv > m then snd kv else m) a hc"
proof (induction hc arbitrary: a)
  case Nil
  then show ?case by simp
next
  case (Cons x hc)
  let ?a = "if snd x > a then snd x else a"
  show ?case
  proof (cases "kv = x")
    case True
    have "snd x \<le> ?a" by (simp add: not_less)
    also have "\<dots> \<le> foldl (\<lambda>m kv. if snd kv > m then snd kv else m) ?a hc"
      by (rule foldl_max_ge)
    finally show ?thesis using True by simp
  next
    case False
    then have "kv \<in> set hc" using Cons.prems by simp
    from Cons.IH [OF this, of ?a] show ?thesis by simp
  qed
qed

lemma foldl_max_attained:
  fixes a :: u64
  shows "foldl (\<lambda>m kv. if snd kv > m then snd kv else m) a hc = a
         \<or> foldl (\<lambda>m kv. if snd kv > m then snd kv else m) a hc \<in> snd ` set hc"
proof (induction hc arbitrary: a)
  case Nil
  show ?case by simp
next
  case (Cons x hc)
  let ?a = "if snd x > a then snd x else a"
  let ?r = "foldl (\<lambda>m kv. if snd kv > m then snd kv else m) ?a hc"
  have r: "foldl (\<lambda>m kv. if snd kv > m then snd kv else m) a (x # hc) = ?r" by simp
  from Cons.IH [of ?a] have "?r = ?a \<or> ?r \<in> snd ` set hc" .
  then show ?case
  proof
    assume "?r = ?a"
    then have "?r = a \<or> ?r = snd x" by (cases "snd x > a") simp_all
    then show ?thesis unfolding r by auto
  next
    assume "?r \<in> snd ` set hc"
    then show ?thesis unfolding r by auto
  qed
qed


lemma ceilDiv_le: "0 < b \<Longrightarrow> ceilDiv c b \<le> c"
proof -
  assume b: "0 < b"
  have "c + b - 1 < (c + 1) * b"
  proof (cases "c = 0")
    case True
    then show ?thesis using b by simp
  next
    case False
    have h: "c \<le> c * b" using b by simp
    have "(c + 1) * b = c * b + b" by (simp add: algebra_simps)
    then show ?thesis using h False b by linarith
  qed
  then have "(c + b - 1) div b < c + 1" using b by (simp add: less_mult_imp_div_less)
  then show ?thesis using b by (simp add: ceilDiv_eq)
qed

lemma ceilDiv_mult_le: "0 < b \<Longrightarrow> ceilDiv c b * b \<le> c + b - 1"
  by (simp add: ceilDiv_eq)

lemma ceilDiv_pos: "0 < b \<Longrightarrow> 0 < c \<Longrightarrow> 0 < ceilDiv c b"
  by (simp add: ceilDiv_eq div_greater_zero_iff)

lemma probe_spec:
  assumes H: "3 * length hc * unat (getMaxValue hc) < 2 ^ 53"
    and M: "getMaxValue hc \<noteq> 0"
    and b1: "1 \<le> unat b" and b2: "unat b \<le> 2 * unat (getMaxValue hc)"
  shows "\<exists>w. binNumOf hc b = Inr w \<and> unat w = specBins hc (unat b) \<and> 0 < specBins hc (unat b)
           \<and> probeLoad hc (calculateTotalSize hc) b =
               Finite (roundToDouble (specLoad hc (unat b)))"
proof -
  let ?M = "unat (getMaxValue hc)"
  let ?k = "length hc"
  let ?n = "unat b"
  let ?f = "\<lambda>kv :: taxid \<times> u64. (snd kv + b - 1) div b"
  have ne: "hc \<noteq> []" using M by (auto simp: getMaxValue_def)
  then have k: "1 \<le> ?k" by (cases hc) simp_all
  have Mpos: "1 \<le> ?M" using M by (simp add: unat_gt_0 Suc_le_eq)
  have npos: "0 < ?n" using b1 by simp
  have kM: "?M \<le> ?k * ?M" using k by (cases "length hc") auto
  have H3: "3 * (?k * ?M) < 2 ^ 53" using H by (simp add: mult.assoc)
  have M3: "3 * ?M < 2 ^ 53" using kM H3 by linarith
  have bnd: "unat (snd kv) \<le> ?M" if "kv \<in> set hc" for kv
    using foldl_max_bound [OF that, of 0] by (simp add: getMaxValue_def word_le_nat_alt)
  have elem: "unat (?f kv) = ceilDiv (unat (snd kv)) ?n" if "kv \<in> set hc" for kv
  proof -
    have c: "unat (snd kv) \<le> ?M" using that by (rule bnd)
    have "unat (snd kv) + unat b < 2 ^ LENGTH(64)" using c b2 M3 by simp
    then have s: "unat (snd kv + b) = unat (snd kv) + ?n"
      using unat_add_lem [of "snd kv" b] by simp
    then have "1 \<le> unat (snd kv + b)" using b1 by simp
    then have "(1 :: u64) \<le> snd kv + b" by (simp add: word_le_nat_alt)
    then have "unat (snd kv + b - 1) = unat (snd kv) + ?n - 1"
      using s by (simp add: unat_sub)
    then have "unat (?f kv) = (unat (snd kv) + ?n - 1) div ?n"
      by (simp add: unat_div)
    then show ?thesis using npos by (simp add: ceilDiv_eq)
  qed
  have map_eq: "map (\<lambda>kv. unat (?f kv)) hc = map (\<lambda>kv. ceilDiv (unat (snd kv)) ?n) hc"
    using elem by simp
  have "sum_list (map (\<lambda>kv. ceilDiv (unat (snd kv)) ?n) hc) \<le> ?k * ?M"
  proof (rule sum_list_bounded, intro ballI)
    fix kv assume "kv \<in> set hc"
    then show "ceilDiv (unat (snd kv)) ?n \<le> ?M"
      using bnd [of kv] ceilDiv_le [OF npos, of "unat (snd kv)"] by simp
  qed
  then have bins_le: "specBins hc ?n \<le> ?k * ?M" by (simp add: specBins_def)
  have "unat (0 :: u64) + sum_list (map (\<lambda>kv. unat (?f kv)) hc) < 2 ^ 64"
    using bins_le H3 by (simp add: map_eq specBins_def)
  from unat_foldl_sum [OF this]
  have w: "unat (foldl (\<lambda>a kv. a + ?f kv) 0 hc) = specBins hc ?n"
    by (simp add: map_eq specBins_def)
  let ?w = "foldl (\<lambda>a kv. a + ?f kv) 0 hc"
  have bn: "binNumOf hc b = Inr ?w"
    using npos by (auto simp: binNumOf_def)
  have "sum_list (map (\<lambda>kv. unat (snd kv)) hc) \<le> ?k * ?M"
    by (rule sum_list_bounded) (simp add: bnd)
  then have tot_le: "specTotal hc \<le> ?k * ?M" by (simp add: specTotal_def)
  have "unat (0 :: u64) + sum_list (map (\<lambda>kv. unat (snd kv)) hc) < 2 ^ 64"
    using tot_le H3 by (simp add: specTotal_def)
  from unat_foldl_sum [OF this]
  have T: "unat (calculateTotalSize hc) = specTotal hc"
    by (simp add: calculateTotalSize_def specTotal_def)
  have "sum_list (map (\<lambda>kv. ceilDiv (unat (snd kv)) ?n * ?n) hc) \<le> ?k * (3 * ?M)"
  proof (rule sum_list_bounded, intro ballI)
    fix kv assume kv: "kv \<in> set hc"
    have "ceilDiv (unat (snd kv)) ?n * ?n \<le> unat (snd kv) + ?n - 1"
      using npos by (rule ceilDiv_mult_le)
    then show "ceilDiv (unat (snd kv)) ?n * ?n \<le> 3 * ?M"
      using bnd [OF kv] b2 by simp
  qed
  moreover have "specBins hc ?n * ?n = sum_list (map (\<lambda>kv. ceilDiv (unat (snd kv)) ?n * ?n) hc)"
    unfolding specBins_def by (induction hc) (simp_all add: algebra_simps)
  ultimately have prod_le: "specBins hc ?n * ?n < 2 ^ 53" using H3 by (simp add: mult.commute mult.left_commute)
  have "unat ?w * unat b < 2 ^ LENGTH(64)" using prod_le w by simp
  then have wb: "unat (?w * b) = specBins hc ?n * ?n"
    using unat_mult_lem [of ?w b] w by simp
  obtain kv where kv: "kv \<in> set hc" "snd kv = getMaxValue hc"
    using foldl_max_attained [of 0 hc] M by (auto simp: getMaxValue_def)
  have "0 < ceilDiv (unat (snd kv)) ?n"
    using npos Mpos kv(2) by (intro ceilDiv_pos) simp_all
  moreover have "ceilDiv (unat (snd kv)) ?n \<le> sum_list (map (\<lambda>kv. ceilDiv (unat (snd kv)) ?n) hc)"
    using kv(1) by (intro member_le_sum_list) auto
  ultimately have bins_pos: "0 < specBins hc ?n" by (simp add: specBins_def)
  have nz: "?w * b \<noteq> 0"
    using wb bins_pos npos by (metis mult_is_0 not_less_zero unat_0 less_numeral_extra(3))
  have dT: "doubleOfU64 (calculateTotalSize hc) = rat_of_nat (specTotal hc)"
    using doubleOfU64_exact [of "calculateTotalSize hc"] T tot_le H3 by simp
  have dD: "doubleOfU64 (?w * b) = rat_of_nat (specBins hc ?n * ?n)"
    using doubleOfU64_exact [of "?w * b"] wb prod_le by simp
  have "probeLoad hc (calculateTotalSize hc) b = dbl_div (calculateTotalSize hc) (?w * b)"
    by (simp add: probeLoad_def bn)
  also have "\<dots> = Finite (roundToDouble
      (doubleOfU64 (calculateTotalSize hc) / doubleOfU64 (?w * b)))"
    using nz by (simp add: dbl_div_def)
  also have "\<dots> =
      Finite (roundToDouble (rat_of_nat (specTotal hc) / rat_of_nat (specBins hc ?n * ?n)))"
    by (simp only: dT dD)
  finally have "probeLoad hc (calculateTotalSize hc) b =
      Finite (roundToDouble (rat_of_nat (specTotal hc) / rat_of_nat (specBins hc ?n * ?n)))" .
  then show ?thesis
    using bn w bins_pos by (simp add: specLoad_def)
qed


text \<open>
  The largest candidate, \<open>2 \<cdot> max\<close>, holds every count in one bin, half full at most:
  its load is at most \<open>1/2\<close>, and so is the \<^verbatim>\<open>double\<close> nearest to it.
\<close>

lemma bitLength_gt: "n < 2 ^ bitLength n"
proof (induction n rule: bitLength.induct)
  case (1 n)
  show ?case
  proof (cases "n = 0")
    case True
    then show ?thesis by simp
  next
    case False
    then have "n div 2 < 2 ^ bitLength (n div 2)" by (rule 1)
    then have "n < 2 * 2 ^ bitLength (n div 2)" by linarith
    then show ?thesis using False by (subst bitLength.simps) simp
  qed
qed

lemma ilog2_le_half:
  assumes "0 < x" "x \<le> 1 / 2"
  shows "ilog2 x \<le> - 1"
proof -
  obtain p q where pq: "quotient_of x = (p, q)" by (cases "quotient_of x")
  have q: "0 < q" using pq by (rule quotient_of_denom_pos)
  have x: "x = rat_of_int p / rat_of_int q" using pq by (rule quotient_of_div)
  have p: "0 < p" using assms(1) q unfolding x by (simp add: zero_less_divide_iff)
  have "rat_of_int p * 2 \<le> rat_of_int q" using assms(2) q unfolding x by (simp add: field_simps)
  then have "p * 2 \<le> q" by (metis of_int_le_iff of_int_mult of_int_numeral)
  then have "nat p < nat q" using p by linarith
  also have "\<dots> < 2 ^ bitLength (nat q)" by (rule bitLength_gt)
  finally have "bitLength (nat p) \<le> bitLength (nat q)" by (rule bitLength_le)
  then have d: "int (bitLength (nat p)) - int (bitLength (nat q)) \<le> 0" by simp
  have one: "\<not> pow2 0 \<le> x" using assms(2) by (simp add: pow2_def)
  show ?thesis
    unfolding ilog2_def pq using d one
    by (cases "int (bitLength (nat p)) - int (bitLength (nat q)) = 0") (auto simp: Let_def)
qed

lemma roundToDouble_le_half:
  assumes "x \<le> 1 / 2"
  shows "roundToDouble x \<le> 1 / 2"
proof (cases "x \<le> 0")
  case True
  then show ?thesis by (simp add: roundToDouble_def)
next
  case False
  then have pos: "0 < x" by simp
  define e where "e = ilog2 x - 52"
  have e: "e \<le> - 53" using ilog2_le_half [OF pos assms] by (simp add: e_def)
  define k where "k = nat (- e) - 1"
  have ke: "nat (- e) = Suc k" using e by (simp add: k_def)
  have p: "pow2 e = 1 / 2 ^ Suc k" using e ke by (simp add: pow2_def)
  define y where "y = x / pow2 e"
  have y: "y \<le> rat_of_int (2 ^ k)" using assms by (simp add: y_def p)
  define m where "m = \<lfloor>y\<rfloor>"
  have m: "m \<le> 2 ^ k" using y unfolding m_def by (metis floor_mono floor_of_int)
  define m' where "m' = (if y - of_int m > 1 / 2 \<or> (y - of_int m = 1 / 2 \<and> odd m) then m + 1 else m)"
  have "m' \<le> 2 ^ k"
  proof (cases "m' = m")
    case True
    then show ?thesis using m by simp
  next
    case False
    then have m1: "m' = m + 1" and "0 < y - of_int m" by (auto simp: m'_def split: if_splits)
    then have "rat_of_int m < rat_of_int (2 ^ k)" using y by linarith
    then have "m < 2 ^ k" by (simp only: of_int_less_iff)
    then show ?thesis using m1 by simp
  qed
  then have "rat_of_int m' \<le> rat_of_int (2 ^ k)" by (simp only: of_int_le_iff)
  then have "rat_of_int m' * pow2 e \<le> 1 / 2" by (simp add: p field_simps)
  moreover have "roundToDouble x = rat_of_int m' * pow2 e"
    unfolding roundToDouble_def Let_def e_def [symmetric] y_def [symmetric] m_def [symmetric] m'_def
    using False by simp
  ultimately show ?thesis by simp
qed

lemma specBins_top:
  assumes "\<forall>kv \<in> set hc. unat (snd kv) \<le> M"
  shows "2 * specTotal hc \<le> specBins hc (2 * M) * (2 * M)"
  using assms
proof (induction hc)
  case Nil
  show ?case by (simp add: specTotal_def specBins_def)
next
  case (Cons kv hc)
  have c: "unat (snd kv) \<le> M" using Cons.prems by simp
  have "2 * unat (snd kv) \<le> ceilDiv (unat (snd kv)) (2 * M) * (2 * M)"
  proof (cases "unat (snd kv) = 0")
    case True
    then show ?thesis by simp
  next
    case False
    then have "0 < ceilDiv (unat (snd kv)) (2 * M)" using c by (intro ceilDiv_pos) simp_all
    then have "1 * (2 * M) \<le> ceilDiv (unat (snd kv)) (2 * M) * (2 * M)"
      by (intro mult_le_mono1) simp
    then show ?thesis using c by linarith
  qed
  moreover have "2 * specTotal hc \<le> specBins hc (2 * M) * (2 * M)"
    using Cons by simp
  ultimately show ?case by (simp add: specTotal_def specBins_def algebra_simps)
qed

lemma specLoad_top:
  "roundToDouble (specLoad hc (2 * unat (getMaxValue hc))) \<le> 1 / 2"
proof (rule roundToDouble_le_half)
  let ?M = "unat (getMaxValue hc)"
  have "\<forall>kv \<in> set hc. unat (snd kv) \<le> ?M"
    using foldl_max_bound [of _ hc 0] by (simp add: getMaxValue_def word_le_nat_alt)
  then have le: "2 * specTotal hc \<le> specBins hc (2 * ?M) * (2 * ?M)" by (rule specBins_top)
  show "specLoad hc (2 * ?M) \<le> 1 / 2"
  proof (cases "specBins hc (2 * ?M) * (2 * ?M) = 0")
    case True
    then have "rat_of_nat (specBins hc (2 * ?M) * (2 * ?M)) = 0" by (simp only: of_nat_0)
    then have "specLoad hc (2 * ?M) = 0" unfolding specLoad_def by (simp only: div_by_0)
    then show ?thesis by simp
  next
    case False
    then have "0 < specBins hc (2 * ?M) * (2 * ?M)" by simp
    then have d: "0 < rat_of_nat (specBins hc (2 * ?M) * (2 * ?M))" by (simp only: of_nat_0_less_iff)
    have "rat_of_nat (2 * specTotal hc) \<le> rat_of_nat (specBins hc (2 * ?M) * (2 * ?M))"
      using le by (simp only: of_nat_le_iff)
    then have "2 * rat_of_nat (specTotal hc) \<le> rat_of_nat (specBins hc (2 * ?M) * (2 * ?M))"
      by simp
    then have "rat_of_nat (specTotal hc) / rat_of_nat (specBins hc (2 * ?M) * (2 * ?M)) \<le> 1 / 2"
      using d by (simp add: pos_divide_le_eq del: of_nat_mult)
    then show ?thesis unfolding specLoad_def .
  qed
qed


text \<open>
  Claim C4, amended. Let \<open>T\<close> be the sum of the counts, \<open>N(b)\<close> the sum over the taxids of
  \<open>ceil(hashCount[t] / b)\<close>, and \<open>\<ell>(b)\<close> the \<^verbatim>\<open>double\<close> nearest to \<open>T / (N(b) \<cdot> b)\<close>, which is
  the load the code compares with the load factor \<open>L\<close>. For every map with
  \<open>3 \<cdot> (number of taxids) \<cdot> max < 2 ^ 53\<close> (no integer wraps, every conversion to
  \<^verbatim>\<open>double\<close> is exact) \<^verbatim>\<open>calculateFilterSize\<close> returns. It returns \<^verbatim>\<open>bins = 0\<close> only when every
  count is zero or \<open>\<ell>(2 \<cdot> max) > L\<close>, the largest candidate failing, which needs \<open>L < 1/2\<close>.
  Otherwise the chosen \<^verbatim>\<open>bin_size\<close> \<open>b\<close> lies in \<open>[1, 2 \<cdot> max]\<close>, \<^verbatim>\<open>bins = N(b)\<close>, \<open>\<ell>(b) \<le> L\<close>,
  and \<open>b\<close> is smallest locally: \<open>b = 1\<close>, or \<open>\<ell>(b) = L\<close>, or \<open>\<ell>(b - 1) > L\<close>. The search moves
  to smaller bin sizes after a candidate passes; it does not look for the largest one.
\<close>

theorem calculateFilterSize_smallest_passing:
  assumes "3 * length hc * unat (getMaxValue hc) < 2 ^ 53"
  shows "\<exists>config'. calculateFilterSize hc icfConfig load_factor mode = Some (Inr config') \<and>
     (bins config' = 0 \<longrightarrow>
        getMaxValue hc = 0
        \<or> (load_factor < roundToDouble (specLoad hc (2 * unat (getMaxValue hc)))
            \<and> load_factor < 1 / 2))
     \<and> (bins config' \<noteq> 0 \<longrightarrow>
          1 \<le> unat (bin_size config') \<and> unat (bin_size config') \<le> 2 * unat (getMaxValue hc)
          \<and> unat (bins config') = specBins hc (unat (bin_size config'))
          \<and> roundToDouble (specLoad hc (unat (bin_size config'))) \<le> load_factor
          \<and> (unat (bin_size config') = 1
              \<or> roundToDouble (specLoad hc (unat (bin_size config'))) = load_factor
              \<or> load_factor < roundToDouble (specLoad hc (unat (bin_size config') - 1))))"
proof (cases "getMaxValue hc = 0")
  case True
  then have "calculateFilterSize hc icfConfig load_factor mode =
      Some (Inr (icfConfig\<lparr>bins := 0, bin_size := 0\<rparr>))"
    by (simp add: calculateFilterSize_def sizeSearch.simps)
  then show ?thesis using True by simp
next
  case False
  let ?M = "getMaxValue hc"
  let ?T = "calculateTotalSize hc"
  let ?L = "load_factor"
  have ne: "hc \<noteq> []" using False by (auto simp: getMaxValue_def)
  then have kM: "unat ?M \<le> length hc * unat ?M" by (cases "length hc") auto
  have "3 * (length hc * unat ?M) < 2 ^ 53" using assms by (simp add: mult.assoc)
  then have M53: "unat ?M < 2 ^ 53" using kM by linarith
  have Mpos: "1 \<le> unat ?M" using False by (simp add: unat_gt_0 Suc_le_eq)
  have "unat ?M * unat (2 :: u64) < 2 ^ LENGTH(64)" using M53 by simp
  then have hi: "unat (?M * 2) = 2 * unat ?M"
    using unat_mult_lem [of ?M 2] by simp
  have p1: "1 \<le> unat (1 :: u64)" by simp
  have p2: "unat (1 :: u64) \<le> unat (?M * 2) + 1" by simp
  have p3: "unat (?M * 2) < 2 ^ 63" using hi M53 by simp
  from sizeSearch_result [OF p1 p2 p3, of hc ?L ?T "?M * 2" 0]
  obtain bs bn where r: "sizeSearch hc ?L ?T 1 (?M * 2) (?M * 2) 0 = Some (Inr (bs, bn))"
    and d: "bs = ?M * 2 \<and> bn = 0
        \<and> (unat (1 :: u64) = unat (?M * 2) + 1 \<or> dbl_gt (probeLoad hc ?T (?M * 2)) ?L)
      \<or> unat (1 :: u64) \<le> unat bs \<and> unat bs \<le> unat (?M * 2) \<and> binNumOf hc bs = Inr bn
        \<and> \<not> dbl_gt (probeLoad hc ?T bs) ?L
        \<and> (dbl_eq (probeLoad hc ?T bs) ?L \<or> bs = 1 \<or> dbl_gt (probeLoad hc ?T (bs - 1)) ?L)"
    by blast
  have res: "calculateFilterSize hc icfConfig ?L mode =
      Some (Inr (icfConfig\<lparr>bins := bn, bin_size := bs\<rparr>))"
    using r by (simp add: calculateFilterSize_def)
  note ps = probe_spec [OF assms False]
  from d show ?thesis
  proof
    assume a: "bs = ?M * 2 \<and> bn = 0
        \<and> (unat (1 :: u64) = unat (?M * 2) + 1 \<or> dbl_gt (probeLoad hc ?T (?M * 2)) ?L)"
    have "unat (1 :: u64) \<noteq> unat (?M * 2) + 1" using hi Mpos by simp
    then have g: "dbl_gt (probeLoad hc ?T (?M * 2)) ?L" using a by blast
    have "1 \<le> unat (?M * 2)" "unat (?M * 2) \<le> 2 * unat ?M" using hi Mpos by simp_all
    from ps [OF this] have "probeLoad hc ?T (?M * 2) =
        Finite (roundToDouble (specLoad hc (unat (?M * 2))))"
      by blast
    then have top: "?L < roundToDouble (specLoad hc (2 * unat ?M))" using g hi by simp
    then have "?L < 1 / 2" using specLoad_top [of hc] by linarith
    then show ?thesis using res a top by simp
  next
    assume b: "unat (1 :: u64) \<le> unat bs \<and> unat bs \<le> unat (?M * 2) \<and> binNumOf hc bs = Inr bn
        \<and> \<not> dbl_gt (probeLoad hc ?T bs) ?L
        \<and> (dbl_eq (probeLoad hc ?T bs) ?L \<or> bs = 1 \<or> dbl_gt (probeLoad hc ?T (bs - 1)) ?L)"
    then have b1: "1 \<le> unat bs" and b2: "unat bs \<le> 2 * unat ?M" using hi by simp_all
    from ps [OF b1 b2] obtain w where w: "binNumOf hc bs = Inr w"
      and uw: "unat w = specBins hc (unat bs)" and pos: "0 < specBins hc (unat bs)"
      and pl: "probeLoad hc ?T bs = Finite (roundToDouble (specLoad hc (unat bs)))"
      by blast
    have bnw: "bn = w" using b w by simp
    have nz: "bn \<noteq> 0" using bnw uw pos by (metis less_numeral_extra(3) unat_0)
    have le: "roundToDouble (specLoad hc (unat bs)) \<le> ?L" using b pl by simp
    have loc: "unat bs = 1
        \<or> roundToDouble (specLoad hc (unat bs)) = ?L
        \<or> ?L < roundToDouble (specLoad hc (unat bs - 1))"
    proof (cases "unat bs = 1")
      case True
      then show ?thesis by simp
    next
      case False
      then have bs2: "2 \<le> unat bs" using b1 by simp
      then have ne1: "bs \<noteq> 1" by auto
      have "(1 :: u64) \<le> bs" using b1 by (simp add: word_le_nat_alt)
      then have um: "unat (bs - 1) = unat bs - 1" by (simp add: unat_sub)
      have "1 \<le> unat (bs - 1)" "unat (bs - 1) \<le> 2 * unat ?M" using um bs2 b2 by simp_all
      from ps [OF this] have plm: "probeLoad hc ?T (bs - 1) =
          Finite (roundToDouble (specLoad hc (unat (bs - 1))))"
        by blast
      from b have "dbl_eq (probeLoad hc ?T bs) ?L \<or> dbl_gt (probeLoad hc ?T (bs - 1)) ?L"
        using ne1 by blast
      then show ?thesis using pl plm um by auto
    qed
    show ?thesis using res nz b1 b2 uw bnw le loc by simp
  qed
qed

lemma spec_examples2:
  "specBins [(''t1'', 10), (''t2'', 7), (''t3'', 9)] 2 = 14"
  "roundToDouble (specLoad [(''t1'', 10), (''t2'', 7), (''t3'', 9)] 2) =
     8363827879402350 / 9007199254740992"
  "roundToDouble (specLoad [(''t1'', 10), (''t2'', 7), (''t3'', 9)] 1) = 1"
  "roundToDouble (specLoad [(''t1'', 10)] 20) = 1 / 2"
  by code_simp+

theorem calculateFilterSize_smallest_passing_witness:
  "3 * length [(''t1'', 10 :: u64), (''t2'', 7), (''t3'', 9)]
     * unat (getMaxValue [(''t1'', 10), (''t2'', 7), (''t3'', 9)]) < 2 ^ 53
   \<and> calculateFilterSize [(''t1'', 10), (''t2'', 7), (''t3'', 9)]
       \<lparr>kmer_size = 19, window_size = 31, bins = 0, bin_size = 0\<rparr> (15 / 16) ''default'' =
       Some (Inr \<lparr>kmer_size = 19, window_size = 31, bins = 14, bin_size = 2\<rparr>)
   \<and> (14 :: u64) \<noteq> 0
   \<and> unat (14 :: u64) = specBins [(''t1'', 10), (''t2'', 7), (''t3'', 9)] 2
   \<and> roundToDouble (specLoad [(''t1'', 10), (''t2'', 7), (''t3'', 9)] 2) \<le> 15 / 16
   \<and> 15 / 16 < roundToDouble (specLoad [(''t1'', 10), (''t2'', 7), (''t3'', 9)] 1)
   \<and> calculateFilterSize [(''t1'', 10)]
       \<lparr>kmer_size = 19, window_size = 31, bins = 7, bin_size = 7\<rparr> (1 / 4) ''default'' =
       Some (Inr \<lparr>kmer_size = 19, window_size = 31, bins = 0, bin_size = 20\<rparr>)
   \<and> 1 / 4 < roundToDouble (specLoad [(''t1'', 10)] (2 * unat (getMaxValue [(''t1'', 10)])))"
proof -
  have m1: "3 * length [(''t1'', 10 :: u64), (''t2'', 7), (''t3'', 9)]
     * unat (getMaxValue [(''t1'', 10), (''t2'', 7), (''t3'', 9)]) < 2 ^ 53"
    by (simp add: getMaxValue_def)
  have m2: "3 * length [(''t1'', 10 :: u64)] * unat (getMaxValue [(''t1'', 10)]) < 2 ^ 53"
    by (simp add: getMaxValue_def)
  have g: "getMaxValue [(''t1'', 10)] = 10" by (simp add: getMaxValue_def)
  have e1: "calculateFilterSize [(''t1'', 10), (''t2'', 7), (''t3'', 9)]
       \<lparr>kmer_size = 19, window_size = 31, bins = 0, bin_size = 0\<rparr> (15 / 16) ''default'' =
       Some (Inr \<lparr>kmer_size = 19, window_size = 31, bins = 14, bin_size = 2\<rparr>)"
    by (simp add: sizer_eval)
  have e2: "calculateFilterSize [(''t1'', 10)]
       \<lparr>kmer_size = 19, window_size = 31, bins = 7, bin_size = 7\<rparr> (1 / 4) ''default'' =
       Some (Inr \<lparr>kmer_size = 19, window_size = 31, bins = 0, bin_size = 20\<rparr>)"
    by (simp add: sizer_eval)
  show ?thesis
    using calculateFilterSize_smallest_passing [OF m1,
        of "\<lparr>kmer_size = 19, window_size = 31, bins = 0, bin_size = 0\<rparr>" "15 / 16" "''default''"]
      calculateFilterSize_smallest_passing [OF m2,
        of "\<lparr>kmer_size = 19, window_size = 31, bins = 7, bin_size = 7\<rparr>" "1 / 4" "''default''"]
      m1 e1 e2 g
    by (simp add: spec_examples2)
qed

section \<open>The chunked prefix sum\<close>

lemma chunk_bounds:
  assumes "1 \<le> P" "P * n < 2 ^ 64" "tid < P"
  shows "chunkStart tid n P = tid * n div P"
    and "chunkEnd tid n P = Suc tid * n div P"
proof -
  have a: "tid * n < 2 ^ 64"
    using assms by (meson le_less_trans less_imp_le_nat mult_le_mono1)
  have b: "Suc tid * n < 2 ^ 64"
    using assms by (meson Suc_leI le_less_trans mult_le_mono1)
  show "chunkStart tid n P = tid * n div P"
    using a by (simp add: chunkStart_def)
  show "chunkEnd tid n P = Suc tid * n div P"
  proof (cases "tid = P - 1")
    case True
    then have "Suc tid = P" using assms by simp
    then show ?thesis using True assms by (simp add: chunkEnd_def)
  next
    case False
    then show ?thesis using b by (simp add: chunkEnd_def)
  qed
qed

lemma cut_mono: "a \<le> b \<Longrightarrow> a * n div P \<le> b * n div (P :: nat)"
  by (simp add: div_le_mono)

lemma cut_top: "1 \<le> P \<Longrightarrow> P * n div P = (n :: nat)"
  by simp

lemma localScan_result:
  assumes "b \<le> length binNums" "b \<le> length ps"
  shows "\<exists>ps'. localScan binNums [a..<b] ls ps = Inr (ls + (\<Sum>j = a..<b. binNums ! j), ps')
           \<and> length ps' = length ps
           \<and> (\<forall>i<length ps. ps' ! i =
                 (if a \<le> i \<and> i < b then ls + (\<Sum>j = a..<Suc i. binNums ! j) else ps ! i))"
  using assms
proof (induction "b - a" arbitrary: a ls ps)
  case 0
  then have "[a..<b] = []" by simp
  moreover have "{a..<b} = {}" using 0 by simp
  ultimately show ?case by auto
next
  case (Suc m)
  then have ab: "a < b" by simp
  let ?ls = "ls + binNums ! a"
  let ?ps = "ps[a := ?ls]"
  have unf: "localScan binNums [a..<b] ls ps = localScan binNums [Suc a..<b] ?ls ?ps"
    using ab Suc.prems by (simp add: upt_conv_Cons)
  have m: "m = b - Suc a" using Suc.hyps(2) by simp
  have lp: "b \<le> length ?ps" using Suc.prems by simp
  from Suc.hyps(1) [OF m Suc.prems(1) lp, of ?ls]
  obtain ps' where r: "localScan binNums [Suc a..<b] ?ls ?ps =
        Inr (?ls + (\<Sum>j = Suc a..<b. binNums ! j), ps')"
    and len: "length ps' = length ?ps"
    and nth: "\<forall>i<length ?ps. ps' ! i =
        (if Suc a \<le> i \<and> i < b then ?ls + (\<Sum>j = Suc a..<Suc i. binNums ! j) else ?ps ! i)"
    by blast
  have total: "?ls + (\<Sum>j = Suc a..<b. binNums ! j) = ls + (\<Sum>j = a..<b. binNums ! j)"
    using ab by (simp add: sum.atLeast_Suc_lessThan add.assoc)
  have "ps' ! i = (if a \<le> i \<and> i < b then ls + (\<Sum>j = a..<Suc i. binNums ! j) else ps ! i)"
    if "i < length ps" for i
  proof -
    have i: "ps' ! i =
        (if Suc a \<le> i \<and> i < b then ?ls + (\<Sum>j = Suc a..<Suc i. binNums ! j) else ?ps ! i)"
      using nth that by simp
    show ?thesis
    proof (cases "Suc a \<le> i \<and> i < b")
      case True
      then have "a < Suc i" by simp
      then have "(\<Sum>j = a..<Suc i. binNums ! j) = binNums ! a + (\<Sum>j = Suc a..<Suc i. binNums ! j)"
        by (rule sum.atLeast_Suc_lessThan)
      then show ?thesis using i True by (simp add: add.assoc)
    next
      case False
      show ?thesis
      proof (cases "i = a")
        case True
        then show ?thesis using i False ab that by simp
      next
        case False
        then show ?thesis using i \<open>\<not> (Suc a \<le> i \<and> i < b)\<close> by auto
      qed
    qed
  qed
  then show ?case using unf r len total by simp
qed

lemma addOffset_result:
  assumes "b \<le> length ps"
  shows "\<exists>ps'. addOffset [a..<b] off ps = Inr ps'
           \<and> length ps' = length ps
           \<and> (\<forall>i<length ps. ps' ! i = (if a \<le> i \<and> i < b then ps ! i + off else ps ! i))"
  using assms
proof (induction "b - a" arbitrary: a ps)
  case 0
  then have "[a..<b] = []" by simp
  then show ?case by auto
next
  case (Suc m)
  then have ab: "a < b" by simp
  let ?ps = "ps[a := ps ! a + off]"
  have unf: "addOffset [a..<b] off ps = addOffset [Suc a..<b] off ?ps"
    using ab Suc.prems by (simp add: upt_conv_Cons)
  have m: "m = b - Suc a" using Suc.hyps(2) by simp
  have lp: "b \<le> length ?ps" using Suc.prems by simp
  from Suc.hyps(1) [OF m lp]
  obtain ps' where r: "addOffset [Suc a..<b] off ?ps = Inr ps'"
    and len: "length ps' = length ?ps"
    and nth: "\<forall>i<length ?ps. ps' ! i = (if Suc a \<le> i \<and> i < b then ?ps ! i + off else ?ps ! i)"
    by blast
  have "ps' ! i = (if a \<le> i \<and> i < b then ps ! i + off else ps ! i)" if "i < length ps" for i
  proof (cases "i = a")
    case True
    then show ?thesis using nth that ab by simp
  next
    case False
    then show ?thesis using nth that by auto
  qed
  then show ?case using unf r len by simp
qed


lemma cut_le_length: "1 \<le> P \<Longrightarrow> k \<le> P \<Longrightarrow> k * n div P \<le> (n :: nat)"
  using cut_mono [of k P n P] by simp

lemma scanPhase_result:
  assumes "1 \<le> P" "P * length binNums < 2 ^ 64" "k \<le> P"
    and "length ps = length binNums" "length ts = P"
    and "\<forall>tid<k. ts ! tid =
           (\<Sum>j = tid * length binNums div P..<Suc tid * length binNums div P. binNums ! j)"
    and "\<forall>tid<k. \<forall>i. tid * length binNums div P \<le> i \<and> i < Suc tid * length binNums div P \<longrightarrow>
           ps ! i = (\<Sum>j = tid * length binNums div P..<Suc i. binNums ! j)"
  shows "\<exists>ps' ts'. scanPhase binNums P [k..<P] (ps, ts) = Inr (ps', ts')
           \<and> length ps' = length binNums \<and> length ts' = P
           \<and> (\<forall>tid<P. ts' ! tid =
                 (\<Sum>j = tid * length binNums div P..<Suc tid * length binNums div P. binNums ! j))
           \<and> (\<forall>tid<P. \<forall>i. tid * length binNums div P \<le> i \<and> i < Suc tid * length binNums div P \<longrightarrow>
                 ps' ! i = (\<Sum>j = tid * length binNums div P..<Suc i. binNums ! j))"
  using assms(3-)
proof (induction "P - k" arbitrary: k ps ts)
  case 0
  then have "k = P" by simp
  then show ?case using 0 by simp
next
  case (Suc m)
  let ?n = "length binNums"
  let ?a = "k * ?n div P"
  let ?b = "Suc k * ?n div P"
  have kP: "k < P" using Suc.hyps(2) by simp
  have cs: "chunkStart k ?n P = ?a" and ce: "chunkEnd k ?n P = ?b"
    using chunk_bounds [OF assms(1) assms(2) kP] by simp_all
  have b_le: "?b \<le> ?n" using cut_le_length [OF assms(1), of "Suc k" ?n] kP by simp
  have b_le_ps: "?b \<le> length ps" using b_le Suc.prems(2) by simp
  from localScan_result [OF b_le b_le_ps, of ?a 0]
  obtain ps1 where ls: "localScan binNums [?a..<?b] 0 ps = Inr ((\<Sum>j = ?a..<?b. binNums ! j), ps1)"
    and len1: "length ps1 = length ps"
    and nth1: "\<forall>i<length ps. ps1 ! i =
        (if ?a \<le> i \<and> i < ?b then (\<Sum>j = ?a..<Suc i. binNums ! j) else ps ! i)"
    by auto
  let ?ts1 = "ts[k := (\<Sum>j = ?a..<?b. binNums ! j)]"
  have unf: "scanPhase binNums P [k..<P] (ps, ts) = scanPhase binNums P [Suc k..<P] (ps1, ?ts1)"
    using kP ls cs ce Suc.prems(3) by (simp add: upt_conv_Cons Let_def)
  have m: "m = P - Suc k" using Suc.hyps(2) by simp
  have k1: "Suc k \<le> P" using kP by simp
  have l1: "length ps1 = ?n" using len1 Suc.prems(2) by simp
  have l2: "length ?ts1 = P" using Suc.prems(3) by simp
  have i1: "\<forall>tid<Suc k. ?ts1 ! tid = (\<Sum>j = tid * ?n div P..<Suc tid * ?n div P. binNums ! j)"
  proof (intro allI impI)
    fix tid assume "tid < Suc k"
    then show "?ts1 ! tid = (\<Sum>j = tid * ?n div P..<Suc tid * ?n div P. binNums ! j)"
      using Suc.prems(3) Suc.prems(4) kP by (cases "tid = k") auto
  qed
  have i2: "\<forall>tid<Suc k. \<forall>i. tid * ?n div P \<le> i \<and> i < Suc tid * ?n div P \<longrightarrow>
      ps1 ! i = (\<Sum>j = tid * ?n div P..<Suc i. binNums ! j)"
  proof (intro allI impI)
    fix tid i
    assume t: "tid < Suc k" and i: "tid * ?n div P \<le> i \<and> i < Suc tid * ?n div P"
    show "ps1 ! i = (\<Sum>j = tid * ?n div P..<Suc i. binNums ! j)"
    proof (cases "tid = k")
      case True
      then have "i < length ps" using i b_le_ps by simp
      then show ?thesis using nth1 i True by simp
    next
      case False
      then have tk: "tid < k" using t by simp
      then have "Suc tid * ?n div P \<le> ?a" by (intro cut_mono) simp
      then have ia: "i < ?a" using i by simp
      have "?a \<le> ?b" by (intro cut_mono) simp
      then have "i < length ps" using ia b_le_ps by simp
      then have "ps1 ! i = ps ! i" using nth1 ia by simp
      then show ?thesis using Suc.prems(5) tk i by simp
    qed
  qed
  from Suc.hyps(1) [OF m k1 l1 l2 i1 i2] show ?case using unf by simp
qed


lemma offsetsLoop_result:
  assumes "length offs = P" "1 \<le> i" "i \<le> P"
    and "\<forall>k<i. offs ! k = (\<Sum>t<k. ts ! t)"
  shows "length (offsetsLoop ts [i..<P] offs) = P
         \<and> (\<forall>k<P. offsetsLoop ts [i..<P] offs ! k = (\<Sum>t<k. ts ! t))"
  using assms
proof (induction "P - i" arbitrary: i offs)
  case 0
  then have "i = P" by simp
  then show ?case using 0 by simp
next
  case (Suc m)
  have iP: "i < P" using Suc.hyps(2) by simp
  let ?offs = "offs[i := offs ! (i - 1) + ts ! (i - 1)]"
  have unf: "offsetsLoop ts [i..<P] offs = offsetsLoop ts [Suc i..<P] ?offs"
    using iP by (simp add: upt_conv_Cons)
  have prev: "offs ! (i - 1) = (\<Sum>t<i - 1. ts ! t)"
    using Suc.prems(2) Suc.prems(4) by simp
  have "{..<i} = insert (i - 1) {..<i - 1}"
    using Suc.prems(2) by auto
  then have new: "offs ! (i - 1) + ts ! (i - 1) = (\<Sum>t<i. ts ! t)"
    using prev by (simp add: add.commute)
  have inv: "\<forall>k<Suc i. ?offs ! k = (\<Sum>t<k. ts ! t)"
  proof (intro allI impI)
    fix k assume "k < Suc i"
    then show "?offs ! k = (\<Sum>t<k. ts ! t)"
      using new Suc.prems(1) Suc.prems(4) iP by (cases "k = i") auto
  qed
  have m: "m = P - Suc i" using Suc.hyps(2) by simp
  have len: "length ?offs = P" using Suc.prems(1) by simp
  have "1 \<le> Suc i" "Suc i \<le> P" using iP by simp_all
  from Suc.hyps(1) [OF m len this inv] show ?case using unf by simp
qed

lemma chunk_sums_telescope:
  fixes f :: "nat \<Rightarrow> u64"
  shows "(\<Sum>t<k. \<Sum>j = t * n div P..<Suc t * n div P. f j) = (\<Sum>j<k * n div P. f j)"
proof (induction k)
  case 0
  then show ?case by simp
next
  case (Suc k)
  have le: "k * n div P \<le> Suc k * n div P" by (intro cut_mono) simp
  have "(\<Sum>j = 0..<k * n div P. f j) + (\<Sum>j = k * n div P..<Suc k * n div P. f j) =
      (\<Sum>j = 0..<Suc k * n div P. f j)"
    using le by (intro sum.atLeastLessThan_concat) simp_all
  then show ?case using Suc by (simp add: lessThan_atLeast0)
qed

lemma offsetPhase_result:
  assumes "1 \<le> P" "P * length binNums < 2 ^ 64" "k \<le> P"
    and "length ps = length binNums"
    and "\<forall>tid<P. offs ! tid = (\<Sum>j<tid * length binNums div P. binNums ! j)"
    and "\<forall>i<k * length binNums div P. ps ! i = (\<Sum>j<Suc i. binNums ! j)"
    and "\<forall>tid. k \<le> tid \<and> tid < P \<longrightarrow>
           (\<forall>i. tid * length binNums div P \<le> i \<and> i < Suc tid * length binNums div P \<longrightarrow>
              ps ! i = (\<Sum>j = tid * length binNums div P..<Suc i. binNums ! j))"
    and "length offs = P"
  shows "\<exists>ps'. offsetPhase (length binNums) P offs [k..<P] ps = Inr ps'
           \<and> length ps' = length binNums
           \<and> (\<forall>i<length binNums. ps' ! i = (\<Sum>j<Suc i. binNums ! j))"
  using assms(3-)
proof (induction "P - k" arbitrary: k ps)
  case 0
  then have "k = P" by simp
  then show ?case using 0 assms(1) by simp
next
  case (Suc m)
  let ?n = "length binNums"
  let ?a = "k * ?n div P"
  let ?b = "Suc k * ?n div P"
  have kP: "k < P" using Suc.hyps(2) by simp
  have cs: "chunkStart k ?n P = ?a" and ce: "chunkEnd k ?n P = ?b"
    using chunk_bounds [OF assms(1) assms(2) kP] by simp_all
  have ab: "?a \<le> ?b" by (intro cut_mono) simp
  have b_le: "?b \<le> ?n" using cut_le_length [OF assms(1), of "Suc k" ?n] kP by simp
  have b_le_ps: "?b \<le> length ps" using b_le Suc.prems(2) by simp
  from addOffset_result [OF b_le_ps, of ?a "offs ! k"]
  obtain ps1 where ao: "addOffset [?a..<?b] (offs ! k) ps = Inr ps1"
    and len1: "length ps1 = length ps"
    and nth1: "\<forall>i<length ps. ps1 ! i = (if ?a \<le> i \<and> i < ?b then ps ! i + offs ! k else ps ! i)"
    by blast
  have unf: "offsetPhase ?n P offs [k..<P] ps = offsetPhase ?n P offs [Suc k..<P] ps1"
    using kP ao cs ce Suc.prems(6) by (simp add: upt_conv_Cons Let_def)
  have m: "m = P - Suc k" using Suc.hyps(2) by simp
  have k1: "Suc k \<le> P" using kP by simp
  have l1: "length ps1 = ?n" using len1 Suc.prems(2) by simp
  have i1: "\<forall>i<?b. ps1 ! i = (\<Sum>j<Suc i. binNums ! j)"
  proof (intro allI impI)
    fix i assume ib: "i < ?b"
    then have il: "i < length ps" using b_le_ps by simp
    show "ps1 ! i = (\<Sum>j<Suc i. binNums ! j)"
    proof (cases "?a \<le> i")
      case True
      have "ps1 ! i = ps ! i + offs ! k" using nth1 il True ib by simp
      also have "ps ! i = (\<Sum>j = ?a..<Suc i. binNums ! j)"
        using Suc.prems(5) kP True ib by simp
      also have "offs ! k = (\<Sum>j = 0..<?a. binNums ! j)"
        using Suc.prems(3) kP by (simp add: lessThan_atLeast0)
      also have "(\<Sum>j = ?a..<Suc i. binNums ! j) + (\<Sum>j = 0..<?a. binNums ! j) =
          (\<Sum>j = 0..<?a. binNums ! j) + (\<Sum>j = ?a..<Suc i. binNums ! j)"
        by (simp add: add.commute)
      also have "\<dots> = (\<Sum>j = 0..<Suc i. binNums ! j)"
        using True by (intro sum.atLeastLessThan_concat) simp_all
      finally show ?thesis by (simp add: lessThan_atLeast0)
    next
      case False
      then have "ps1 ! i = ps ! i" using nth1 il by simp
      then show ?thesis using Suc.prems(4) False by simp
    qed
  qed
  have i2: "\<forall>tid. Suc k \<le> tid \<and> tid < P \<longrightarrow>
      (\<forall>i. tid * ?n div P \<le> i \<and> i < Suc tid * ?n div P \<longrightarrow>
         ps1 ! i = (\<Sum>j = tid * ?n div P..<Suc i. binNums ! j))"
  proof (intro allI impI)
    fix tid i
    assume t: "Suc k \<le> tid \<and> tid < P" and i: "tid * ?n div P \<le> i \<and> i < Suc tid * ?n div P"
    have "?b \<le> tid * ?n div P" using t by (intro cut_mono) simp
    then have nb: "\<not> i < ?b" using i by simp
    have "Suc tid * ?n div P \<le> ?n" using cut_le_length [OF assms(1), of "Suc tid" ?n] t by simp
    then have "i < length ps" using i Suc.prems(2) by simp
    then have "ps1 ! i = ps ! i" using nth1 nb by simp
    then show "ps1 ! i = (\<Sum>j = tid * ?n div P..<Suc i. binNums ! j)"
      using Suc.prems(5) t i by simp
  qed
  from Suc.hyps(1) [OF m k1 l1 Suc.prems(3) i1 i2 Suc.prems(6)] show ?case using unf by simp
qed

text \<open>
  When both regions run with a team of \<^verbatim>\<open>omp_get_max_threads()\<close> threads, and
  \<open>P \<cdot> num_taxids < 2 ^ 64\<close> so that no product \<^verbatim>\<open>tid * num_taxids\<close> of the chunk bounds
  wraps, the chunked prefix sum ends without an index out of range and is the
  sequential inclusive prefix sum at every index, in 64-bit arithmetic.
\<close>

lemma parallelPrefixSum_full_team:
  assumes "1 \<le> P" "P * length binNums < 2 ^ 64"
  shows "parallelPrefixSum (fullTeam P) binNums = Inr (inclusivePrefixSum binNums)"
proof -
  let ?n = "length binNums"
  from scanPhase_result [OF assms, of 0 "replicate ?n 0" "replicate P 0"]
  obtain ps1 ts1 where
    sp: "scanPhase binNums P [0..<P] (replicate ?n 0, replicate P 0) = Inr (ps1, ts1)"
    and l1: "length ps1 = ?n" and l2: "length ts1 = P"
    and t1: "\<forall>tid<P. ts1 ! tid = (\<Sum>j = tid * ?n div P..<Suc tid * ?n div P. binNums ! j)"
    and p1: "\<forall>tid<P. \<forall>i. tid * ?n div P \<le> i \<and> i < Suc tid * ?n div P \<longrightarrow>
        ps1 ! i = (\<Sum>j = tid * ?n div P..<Suc i. binNums ! j)"
    by auto
  let ?offs = "offsetsLoop ts1 [1..<P] (replicate P 0)"
  have "length ?offs = P \<and> (\<forall>k<P. ?offs ! k = (\<Sum>t<k. ts1 ! t))"
    using assms(1) by (intro offsetsLoop_result) auto
  then have lo: "length ?offs = P" and offs: "\<forall>k<P. ?offs ! k = (\<Sum>t<k. ts1 ! t)"
    by simp_all
  have o2: "\<forall>tid<P. ?offs ! tid = (\<Sum>j<tid * ?n div P. binNums ! j)"
  proof (intro allI impI)
    fix tid assume tp: "tid < P"
    have "?offs ! tid = (\<Sum>t<tid. ts1 ! t)"
      using offs tp by blast
    also have "\<dots> = (\<Sum>t<tid. \<Sum>j = t * ?n div P..<Suc t * ?n div P. binNums ! j)"
      using t1 tp by (intro sum.cong) auto
    also have "\<dots> = (\<Sum>j<tid * ?n div P. binNums ! j)"
      by (rule chunk_sums_telescope)
    finally show "?offs ! tid = (\<Sum>j<tid * ?n div P. binNums ! j)" .
  qed
  have z: "\<forall>i<0 * ?n div P. ps1 ! i = (\<Sum>j<Suc i. binNums ! j)" by simp
  have p2: "\<forall>tid. 0 \<le> tid \<and> tid < P \<longrightarrow>
      (\<forall>i. tid * ?n div P \<le> i \<and> i < Suc tid * ?n div P \<longrightarrow>
         ps1 ! i = (\<Sum>j = tid * ?n div P..<Suc i. binNums ! j))"
    using p1 by simp
  have "0 \<le> P" by simp
  from offsetPhase_result [OF assms this l1 o2 z p2 lo]
  obtain ps2 where op: "offsetPhase ?n P ?offs [0..<P] ps1 = Inr ps2"
    and l3: "length ps2 = ?n"
    and fin: "\<forall>i<?n. ps2 ! i = (\<Sum>j<Suc i. binNums ! j)"
    by blast
  have "ps2 = inclusivePrefixSum binNums"
    using l3 fin by (intro nth_equalityI) (simp_all add: inclusivePrefixSum_def lessThan_Suc_atMost)
  then show ?thesis
    using sp op by (simp add: parallelPrefixSum_def fullTeam_def Let_def)
qed

text \<open>
  Claim C8 at a failing input: eight taxids, \<^verbatim>\<open>omp_get_max_threads() = 4\<close>, and both
  parallel regions run by a team of two threads. The chunk bounds are those of four
  threads, so threads 0 and 1 scan the indices below 4 and nobody scans the rest: the
  result is \<open>[5, 8, 12, 14, 0, 0, 0, 0]\<close> where the sequential inclusive prefix sum is
  \<open>[5, 8, 12, 14, 15, 16, 17, 18]\<close>.
\<close>

theorem parallelPrefixSum_small_team:
  "parallelPrefixSum \<lparr>maxThreads = 4, scanTeam = 2, offsetTeam = 2\<rparr> [5, 3, 4, 2, 1, 1, 1, 1] =
     Inr [5, 8, 12, 14, 0, 0, 0, 0]
   \<and> inclusivePrefixSum [5, 3, 4, 2, 1, 1, 1, 1 :: u64] = [5, 8, 12, 14, 15, 16, 17, 18]
   \<and> parallelPrefixSum (fullTeam 4) [5, 3, 4, 2, 1, 1, 1, 1] =
     Inr [5, 8, 12, 14, 15, 16, 17, 18]"
  by (simp add: parallelPrefixSum_def fullTeam_def chunkStart_def chunkEnd_def
        inclusivePrefixSum_def upt_rec)

end
